theory Spec2Isabelle
  imports Main "HOL-Library.Multiset" "HOL-Library.Sublist"
begin

section \<open>JavaScript strings\<close>

text \<open>
  A JavaScript string is a sequence of UTF-16 code units, and \<open>length\<close> counts code
  units. A code unit is modelled by its numeric value. String literals of the source are
  ASCII; \<open>js\<close> embeds such a literal.
\<close>

type_synonym jsstring = "nat list"

definition js :: "string \<Rightarrow> jsstring" where
  "js s = map of_char s"

section \<open>Bounce explanation (\<open>EntityEmailHistory.tsx\<close>, lines 80-106)\<close>

datatype LucideIcon =
    MailX | AlertTriangle | XCircle
  | FileText | Users | Briefcase | Clock | Zap | Calendar | Bell | Activity
  | TrendingUp | BarChart3 | Target | LineChart | DollarSign | Percent
  | ArrowUpRight | Mail | PhoneCall | MessageSquare | CheckCircle | ListTodo
  | Trophy | Globe | MapPin | Filter | Building2 | Star | PieChart | Gauge

datatype Severity = SevError | SevWarning

record BounceExplanation =
  title :: jsstring
  subtitle :: jsstring
  description :: jsstring
  Icon :: LucideIcon
  severity :: Severity

text \<open>The three object literals returned by \<open>getBounceExplanation\<close>.\<close>

definition hardBounce :: BounceExplanation where
  "hardBounce = \<lparr>
     title = js ''Delivery Failed'',
     subtitle = js ''Email address doesn't exist'',
     description = js (''This email could not be delivered because the recipient's email address ''
       @ ''was not found or is invalid. Please verify the email address and try again with a correct one.''),
     Icon = MailX,
     severity = SevError \<rparr>"

definition softBounce :: BounceExplanation where
  "softBounce = \<lparr>
     title = js ''Delivery Delayed'',
     subtitle = js ''Temporary delivery issue'',
     description = js (''This email couldn't be delivered due to a temporary issue ''
       @ ''(e.g., full mailbox, server busy). The system may retry automatically.''),
     Icon = AlertTriangle,
     severity = SevWarning \<rparr>"

definition genericBounce :: BounceExplanation where
  "genericBounce = \<lparr>
     title = js ''Delivery Failed'',
     subtitle = js ''Unable to deliver email'',
     description = js (''This email could not be delivered to the recipient. The email address ''
       @ ''may be invalid or the recipient's server rejected the message.''),
     Icon = XCircle,
     severity = SevError \<rparr>"

text \<open>
  \<open>bounceType\<close> and \<open>bounceReason\<close> have type \<open>string | null\<close>; \<open>None\<close> is
  \<open>null\<close>. The comparisons are \<open>===\<close> against a string literal.
\<close>

definition getBounceExplanation :: "jsstring option \<Rightarrow> jsstring option \<Rightarrow> BounceExplanation" where
  "getBounceExplanation bounceType bounceReason =
     (if bounceType = Some (js ''hard'') then hardBounce
      else if bounceType = Some (js ''soft'') then softBounce
      else genericBounce)"

section \<open>Cleaning a bounce reason (lines 108-157)\<close>

subsection \<open>Character classes of the regular expressions\<close>

text \<open>
  \<open>\s\<close> and \<open>trim\<close> use the same set: the white space and line terminator code
  points of ECMAScript. \<open>\d\<close> is \<open>[0-9]\<close>. The dot does not match a line
  terminator.
\<close>

definition isWhiteSpace :: "nat \<Rightarrow> bool" where
  "isWhiteSpace c \<longleftrightarrow>
     c \<in> {9, 10, 11, 12, 13, 32, 160, 5760, 8232, 8233, 8239, 8287, 12288, 65279}
     \<or> (8192 \<le> c \<and> c \<le> 8202)"

definition isDigit :: "nat \<Rightarrow> bool" where
  "isDigit c \<longleftrightarrow> 48 \<le> c \<and> c \<le> 57"

definition isLineTerminator :: "nat \<Rightarrow> bool" where
  "isLineTerminator c \<longleftrightarrow> c \<in> {10, 13, 8232, 8233}"

text \<open>
  Matching under the flag \<open>i\<close> (without \<open>u\<close>) compares canonicalised code units.
  Every pattern character of the source is ASCII, and ECMAScript's canonicalisation
  never maps a code unit of 128 or more to one below 128, so upper-casing the ASCII
  letters decides every comparison against a pattern character.
\<close>

definition canonicalize :: "nat \<Rightarrow> nat" where
  "canonicalize c = (if 97 \<le> c \<and> c \<le> 122 then c - 32 else c)"

subsection \<open>The replacements and \<open>trim\<close> (line 113)\<close>

text \<open>
  \<open>replace(/<[^>]*>/g, ' ')\<close>: scanning from the left, a \<open><\<close> with a later
  \<open>>\<close> starts a match that ends at the first such \<open>>\<close>; it becomes one space
  and the scan goes on behind it. Any other code unit is kept.
\<close>

function stripTags :: "jsstring \<Rightarrow> jsstring" where
  "stripTags [] = []"
| "stripTags (c # cs) =
     (if c = of_char CHR ''<'' \<and> of_char CHR ''>'' \<in> set cs
      then of_char CHR '' '' # stripTags (tl (dropWhile (\<lambda>x. x \<noteq> of_char CHR ''>'') cs))
      else c # stripTags cs)"
  by pat_completeness auto
termination
proof (relation "measure length")
  show "wf (measure length)" by simp
next
  fix c :: nat and cs :: "nat list"
  have "length (tl (dropWhile (\<lambda>x. x \<noteq> of_char CHR ''>'') cs)) \<le> length cs"
    using length_dropWhile_le[of "\<lambda>x. x \<noteq> of_char CHR ''>''" cs] by simp
  then show "(tl (dropWhile (\<lambda>x. x \<noteq> of_char CHR ''>'') cs), c # cs) \<in> measure length"
    by simp
next
  fix c :: nat and cs :: "nat list"
  show "(cs, c # cs) \<in> measure length" by simp
qed

text \<open>\<open>replace(/\s+/g, ' ')\<close>: every maximal run of white space becomes one space.\<close>

function collapseWhitespace :: "jsstring \<Rightarrow> jsstring" where
  "collapseWhitespace [] = []"
| "collapseWhitespace (c # cs) =
     (if isWhiteSpace c
      then of_char CHR '' '' # collapseWhitespace (dropWhile isWhiteSpace cs)
      else c # collapseWhitespace cs)"
  by pat_completeness auto
termination
proof (relation "measure length")
  show "wf (measure length)" by simp
next
  fix c :: nat and cs :: "nat list"
  have "length (dropWhile isWhiteSpace cs) \<le> length cs"
    by (rule length_dropWhile_le)
  then show "(dropWhile isWhiteSpace cs, c # cs) \<in> measure length"
    by simp
next
  fix c :: nat and cs :: "nat list"
  show "(cs, c # cs) \<in> measure length" by simp
qed

definition trim :: "jsstring \<Rightarrow> jsstring" where
  "trim s = rev (dropWhile isWhiteSpace (rev (dropWhile isWhiteSpace s)))"

definition cleanText :: "jsstring \<Rightarrow> jsstring" where
  "cleanText reason = trim (collapseWhitespace (stripTags reason))"

subsection \<open>The patterns (lines 116-126 and 140)\<close>

text \<open>Does the literal \<open>pat\<close> match at the start of \<open>s\<close>, ignoring case?\<close>

definition startsWithCI :: "jsstring \<Rightarrow> jsstring \<Rightarrow> bool" where
  "startsWithCI pat s \<longleftrightarrow>
     length pat \<le> length s \<and> map canonicalize (take (length pat) s) = map canonicalize pat"

text \<open>An unanchored search for a literal: try every start position, left to right.\<close>

fun containsCI :: "jsstring \<Rightarrow> jsstring \<Rightarrow> bool" where
  "containsCI pat [] = startsWithCI pat []"
| "containsCI pat (c # cs) = (startsWithCI pat (c # cs) \<or> containsCI pat cs)"

text \<open>\<open>.*lit\<close> at the start of \<open>s\<close>: the dots skip code units other than line terminators.\<close>

fun dotStarThen :: "jsstring \<Rightarrow> jsstring \<Rightarrow> bool" where
  "dotStarThen lit [] = startsWithCI lit []"
| "dotStarThen lit (c # cs) =
     (startsWithCI lit (c # cs) \<or> (\<not> isLineTerminator c \<and> dotStarThen lit cs))"

text \<open>An unanchored search for \<open>lit1.*lit2\<close>.\<close>

fun containsGapCI :: "jsstring \<Rightarrow> jsstring \<Rightarrow> jsstring \<Rightarrow> bool" where
  "containsGapCI lit1 lit2 [] = (startsWithCI lit1 [] \<and> dotStarThen lit2 [])"
| "containsGapCI lit1 lit2 (c # cs) =
     ((startsWithCI lit1 (c # cs) \<and> dotStarThen lit2 (drop (length lit1) (c # cs)))
      \<or> containsGapCI lit1 lit2 cs)"

datatype pattern = LiteralPat jsstring | GapPat jsstring jsstring

definition patterns :: "pattern list" where
  "patterns = [
     LiteralPat (js ''The email account that you tried to reach does not exist''),
     LiteralPat (js ''address rejected''),
     LiteralPat (js ''user unknown''),
     LiteralPat (js ''mailbox not found''),
     LiteralPat (js ''recipient rejected''),
     LiteralPat (js ''no such user''),
     LiteralPat (js ''invalid recipient''),
     GapPat (js ''delivery'') (js ''failed''),
     LiteralPat (js ''undeliverable'') ]"

fun matchPattern :: "pattern \<Rightarrow> jsstring \<Rightarrow> bool" where
  "matchPattern (LiteralPat lit) s = containsCI lit s"
| "matchPattern (GapPat lit1 lit2) s = containsGapCI lit1 lit2 s"

text \<open>
  \<open>/^\d{3}\s+\d+\.\d+\.\d+/\<close>. Each repetition is followed by a class disjoint from
  its own, so it has to take the whole run; the last \<open>\d+\<close> needs one digit.
\<close>

definition startsWithSmtpCode :: "jsstring \<Rightarrow> bool" where
  "startsWithSmtpCode s =
     (let r1 = drop 3 s;
          r2 = dropWhile isWhiteSpace r1;
          r3 = dropWhile isDigit r2;
          r4 = dropWhile isDigit (drop 1 r3);
          r5 = drop 1 r4
      in length (take 3 s) = 3 \<and> list_all isDigit (take 3 s)
         \<and> takeWhile isWhiteSpace r1 \<noteq> []
         \<and> takeWhile isDigit r2 \<noteq> []
         \<and> take 1 r3 = js ''.''
         \<and> takeWhile isDigit (drop 1 r3) \<noteq> []
         \<and> take 1 r4 = js ''.''
         \<and> take 1 r5 \<noteq> [] \<and> list_all isDigit (take 1 r5))"

subsection \<open>\<open>split(/[.!?]/)[0]\<close> (line 148)\<close>

definition isSentenceEnd :: "nat \<Rightarrow> bool" where
  "isSentenceEnd c \<longleftrightarrow> c = of_char CHR ''.'' \<or> c = of_char CHR ''!'' \<or> c = of_char CHR ''?''"

text \<open>
  The separator matches exactly one code unit, so \<open>split\<close> cuts at every separator
  and keeps empty pieces; the empty string yields one empty piece.
\<close>

fun split :: "(nat \<Rightarrow> bool) \<Rightarrow> jsstring \<Rightarrow> jsstring list" where
  "split sep [] = [[]]"
| "split sep (c # cs) =
     (if sep c then [] # split sep cs
      else (case split sep cs of
              [] \<Rightarrow> [[c]]
            | piece # pieces \<Rightarrow> (c # piece) # pieces))"

text \<open>Indexing with \<open>[0]\<close>: \<open>None\<close> is \<open>undefined\<close>.\<close>

definition first :: "'a list \<Rightarrow> 'a option" where
  "first xs = (case xs of [] \<Rightarrow> None | x # _ \<Rightarrow> Some x)"

subsection \<open>\<open>cleanBounceReason\<close>\<close>

record CleanedReason =
  summary :: jsstring
  technical :: "jsstring option"

text \<open>The loop over \<open>patterns\<close>: \<open>Some\<close> is the value returned from inside the loop.\<close>

fun patternLoop :: "pattern list \<Rightarrow> jsstring \<Rightarrow> CleanedReason option" where
  "patternLoop [] cleaned = None"
| "patternLoop (p # ps) cleaned =
     (if matchPattern p cleaned
      then Some \<lparr> summary = js ''The recipient's email address was not found or is invalid.'',
                  technical = Some cleaned \<rparr>
      else patternLoop ps cleaned)"

text \<open>
  \<open>!reason\<close> holds for \<open>null\<close> and for the empty string. \<open>firstSentence &&\<close> holds
  for a non-empty string.
\<close>

definition cleanBounceReason :: "jsstring option \<Rightarrow> CleanedReason" where
  "cleanBounceReason reason =
     (case reason of
        None \<Rightarrow> \<lparr> summary = [], technical = None \<rparr>
      | Some r \<Rightarrow>
          if r = [] then \<lparr> summary = [], technical = None \<rparr>
          else
            let cleaned = cleanText r in
            (case patternLoop patterns cleaned of
               Some res \<Rightarrow> res
             | None \<Rightarrow>
                 if startsWithSmtpCode cleaned \<or> containsCI (js ''error code'') cleaned
                 then \<lparr> summary = js ''The email server rejected the message.'',
                        technical = Some cleaned \<rparr>
                 else
                   (case first (split isSentenceEnd cleaned) of
                      None \<Rightarrow> \<lparr> summary = cleaned, technical = None \<rparr>
                    | Some firstSentence \<Rightarrow>
                        if firstSentence \<noteq> [] \<and> length firstSentence > 10
                           \<and> length firstSentence < 200
                        then \<lparr> summary = firstSentence @ js ''.'',
                               technical = (if cleaned \<noteq> firstSentence @ js ''.''
                                            then Some cleaned else None) \<rparr>
                        else \<lparr> summary = cleaned, technical = None \<rparr>)))"

subsection \<open>The function as described\<close>

text \<open>
  The description of \<open>cleanBounceReason\<close>, written out without the helpers above.
  Character classes are given by code point: white space as ECMAScript lists it,
  decimal digits, and equality of two code units up to the case of an ASCII letter.
\<close>

definition whiteSpaceCodePoint :: "nat \<Rightarrow> bool" where
  "whiteSpaceCodePoint c \<longleftrightarrow>
     c \<in> {0x09, 0x0A, 0x0B, 0x0C, 0x0D, 0x20, 0xA0, 0x1680, 0x2028, 0x2029, 0x202F, 0x205F,
           0x3000, 0xFEFF} \<union> {0x2000..0x200A}"

definition decimalDigit :: "nat \<Rightarrow> bool" where
  "decimalDigit c \<longleftrightarrow> of_char CHR ''0'' \<le> c \<and> c \<le> of_char CHR ''9''"

definition asciiUpper :: "nat \<Rightarrow> bool" where
  "asciiUpper c \<longleftrightarrow> of_char CHR ''A'' \<le> c \<and> c \<le> of_char CHR ''Z''"

definition sameIgnoringCase :: "nat \<Rightarrow> nat \<Rightarrow> bool" where
  "sameIgnoringCase a b \<longleftrightarrow>
     a = b \<or> (asciiUpper a \<and> b = a + 32) \<or> (asciiUpper b \<and> a = b + 32)"

text \<open>
  Stripping tags: outside a tag, a \<open><\<close> that is closed later opens a tag; inside a
  tag everything up to the first \<open>>\<close> is dropped, and one space takes the tag's place.
\<close>

fun dropTags :: "bool \<Rightarrow> jsstring \<Rightarrow> jsstring" where
  "dropTags inTag [] = []"
| "dropTags inTag (c # cs) =
     (if inTag
      then (if c = of_char CHR ''>'' then of_char CHR '' '' # dropTags False cs
            else dropTags True cs)
      else (if c = of_char CHR ''<'' \<and> of_char CHR ''>'' \<in> set cs then dropTags True cs
            else c # dropTags False cs))"

text \<open>
  Collapsing white space: white space at either end disappears, and a run of white
  space between two other code units becomes one space.
\<close>

fun squeeze :: "jsstring \<Rightarrow> jsstring" where
  "squeeze [] = []"
| "squeeze (c # cs) =
     (if whiteSpaceCodePoint c then squeeze cs
      else if cs \<noteq> [] \<and> whiteSpaceCodePoint (hd cs) \<and> squeeze cs \<noteq> []
      then c # of_char CHR '' '' # squeeze cs
      else c # squeeze cs)"

definition describedCleanedText :: "jsstring \<Rightarrow> jsstring" where
  "describedCleanedText reason = squeeze (dropTags False reason)"

text \<open>
  A phrase occurs at position \<open>i\<close> of a text when the code units from \<open>i\<close> on spell
  it up to case; a text contains a phrase when it occurs at some position, and two
  phrases in order when the second occurs at or behind the end of the first.
\<close>

definition occursAt :: "jsstring \<Rightarrow> nat \<Rightarrow> jsstring \<Rightarrow> bool" where
  "occursAt phrase i s \<longleftrightarrow>
     i + length phrase \<le> length s
     \<and> list_all2 sameIgnoringCase phrase (take (length phrase) (drop i s))"

definition containsIgnoringCase :: "jsstring \<Rightarrow> jsstring \<Rightarrow> bool" where
  "containsIgnoringCase phrase s \<longleftrightarrow> (\<exists>i \<in> {..length s}. occursAt phrase i s)"

definition containsInOrder :: "jsstring \<Rightarrow> jsstring \<Rightarrow> jsstring \<Rightarrow> bool" where
  "containsInOrder phrase1 phrase2 s \<longleftrightarrow>
     (\<exists>i \<in> {..length s}. \<exists>j \<in> {..length s}.
        occursAt phrase1 i s \<and> i + length phrase1 \<le> j \<and> occursAt phrase2 j s)"

text \<open>The nine known failure patterns: eight phrases, and "delivery" followed by "failed".\<close>

definition failurePhrases :: "jsstring list" where
  "failurePhrases = [
     js ''The email account that you tried to reach does not exist'',
     js ''address rejected'',
     js ''user unknown'',
     js ''mailbox not found'',
     js ''recipient rejected'',
     js ''no such user'',
     js ''invalid recipient'',
     js ''undeliverable'' ]"

definition knownFailure :: "jsstring \<Rightarrow> bool" where
  "knownFailure s \<longleftrightarrow>
     (\<exists>phrase \<in> set failurePhrases. containsIgnoringCase phrase s)
     \<or> containsInOrder (js ''delivery'') (js ''failed'') s"

text \<open>
  A text begins with an SMTP code and a dotted status code when it starts with exactly
  three digits, then white space up to \<open>p\<close>, then digits up to \<open>q\<close>, a dot, digits
  up to \<open>r\<close>, a dot, and at least one more digit. \<open>runOf P s a b\<close> says that the
  positions from \<open>a\<close> up to \<open>b\<close>, at least one, all hold code units in \<open>P\<close>.
\<close>

definition runOf :: "(nat \<Rightarrow> bool) \<Rightarrow> jsstring \<Rightarrow> nat \<Rightarrow> nat \<Rightarrow> bool" where
  "runOf P s a b \<longleftrightarrow> a < b \<and> b \<le> length s \<and> (\<forall>k \<in> {a..<b}. P (s ! k))"

definition beginsWithSmtpStatus :: "jsstring \<Rightarrow> bool" where
  "beginsWithSmtpStatus s \<longleftrightarrow>
     (\<exists>p \<in> {..length s}. \<exists>q \<in> {..<length s}. \<exists>r \<in> {..<length s}. \<exists>e \<in> {..length s}.
        runOf decimalDigit s 0 3
        \<and> runOf whiteSpaceCodePoint s 3 p
        \<and> runOf decimalDigit s p q \<and> s ! q = of_char CHR ''.''
        \<and> runOf decimalDigit s (Suc q) r \<and> s ! r = of_char CHR ''.''
        \<and> runOf decimalDigit s (Suc r) e)"

text \<open>
  The described function: \<open>null\<close> first, then the cleaned text and the four cases in
  order.
\<close>

definition describedCleanBounceReason :: "jsstring option \<Rightarrow> CleanedReason" where
  "describedCleanBounceReason reason =
     (case reason of
        None \<Rightarrow> \<lparr> summary = [], technical = None \<rparr>
      | Some r \<Rightarrow>
          let cleaned = describedCleanedText r;
              firstSentence =
                takeWhile (\<lambda>c. c \<notin> {of_char CHR ''.'', of_char CHR ''!'', of_char CHR ''?''}) cleaned
          in if knownFailure cleaned
             then \<lparr> summary = js ''The recipient's email address was not found or is invalid.'',
                    technical = Some cleaned \<rparr>
             else if beginsWithSmtpStatus cleaned \<or> containsIgnoringCase (js ''error code'') cleaned
             then \<lparr> summary = js ''The email server rejected the message.'',
                    technical = Some cleaned \<rparr>
             else if firstSentence \<noteq> [] \<and> 10 < length firstSentence \<and> length firstSentence < 200
             then \<lparr> summary = firstSentence @ js ''.'',
                    technical = (if cleaned = firstSentence @ js ''.'' then None else Some cleaned) \<rparr>
             else \<lparr> summary = cleaned, technical = None \<rparr>)"

subsection \<open>The ends of a collapsed text\<close>

text \<open>
  What \<open>collapseWhitespace\<close> leaves in front of and behind the squeezed text: one
  space where the text began, respectively ended, with white space.
\<close>

definition leadOf :: "jsstring \<Rightarrow> jsstring" where
  "leadOf s = (if s \<noteq> [] \<and> isWhiteSpace (hd s) then [of_char CHR '' ''] else [])"

definition trailOf :: "jsstring \<Rightarrow> jsstring" where
  "trailOf s = (if squeeze s \<noteq> [] \<and> isWhiteSpace (last s) then [of_char CHR '' ''] else [])"

section \<open>Email history (lines 41-63, 167-192, 213-224, 274-351)\<close>

text \<open>
  A field of type \<open>T | null\<close> is an option; for the optional entity ids \<open>None\<close> also
  stands for \<open>undefined\<close>, since neither is \<open>===\<close> to a string. Counts are integral
  numbers. The field \<open>id\<close> of the source is \<open>id_email\<close> here.
\<close>

record EmailHistoryItem =
  id_email :: jsstring
  subject :: jsstring
  recipient_email :: jsstring
  recipient_name :: "jsstring option"
  sender_email :: jsstring
  body :: "jsstring option"
  status :: jsstring
  sent_at :: jsstring
  opened_at :: "jsstring option"
  open_count :: "int option"
  unique_opens :: "int option"
  bounce_type :: "jsstring option"
  bounce_reason :: "jsstring option"
  bounced_at :: "jsstring option"
  is_valid_open :: "bool option"
  reply_count :: "int option"
  replied_at :: "jsstring option"
  last_reply_at :: "jsstring option"
  lead_id :: "jsstring option"
  contact_id :: "jsstring option"
  account_id :: "jsstring option"

subsection \<open>\<open>getStatusBadge\<close>\<close>

text \<open>Truthiness of a \<open>string | null\<close> and of a \<open>number | null\<close>.\<close>

definition truthyString :: "jsstring option \<Rightarrow> bool" where
  "truthyString v = (case v of None \<Rightarrow> False | Some s \<Rightarrow> s \<noteq> [])"

definition truthyNumber :: "int option \<Rightarrow> bool" where
  "truthyNumber v = (case v of None \<Rightarrow> False | Some n \<Rightarrow> n \<noteq> 0)"

text \<open>\<open>reply_count > n\<close>, where \<open>null\<close> compares as \<open>0\<close>.\<close>

definition numberGreater :: "int option \<Rightarrow> int \<Rightarrow> bool" where
  "numberGreater v n = (case v of None \<Rightarrow> 0 > n | Some k \<Rightarrow> k > n)"

text \<open>
  \<open>Date.now() - sentAt.getTime() < 60000\<close>, in milliseconds. \<open>getTime\<close> of an invalid
  date is \<open>NaN\<close>, here \<open>None\<close>, and every comparison with \<open>NaN\<close> is false.
\<close>

definition isRecentlySent :: "int \<Rightarrow> int option \<Rightarrow> bool" where
  "isRecentlySent now sentAt = (case sentAt of None \<Rightarrow> False | Some t \<Rightarrow> now - t < 60000)"

text \<open>
  The badges, by their text. The bounce badge shows a title; the reply badge shows the
  count in parentheses when there is more than one reply.
\<close>

datatype Badge =
    Verifying | BounceBadge jsstring | Replied "int option"
  | Suspicious | Opened | Delivered | Sent

definition repliedSuffix :: "int option \<Rightarrow> int option" where
  "repliedSuffix rc = (if truthyNumber rc \<and> numberGreater rc 1 then rc else None)"

text \<open>
  \<open>parseDate\<close> is \<open>new Date(s).getTime()\<close> and \<open>now\<close> is \<open>Date.now()\<close>; both come
  from the JavaScript runtime.
\<close>

definition getStatusBadge :: "(jsstring \<Rightarrow> int option) \<Rightarrow> int \<Rightarrow> EmailHistoryItem \<Rightarrow> Badge" where
  "getStatusBadge parseDate now email =
     (if status email = js ''sent'' \<and> isRecentlySent now (parseDate (sent_at email))
         \<and> \<not> truthyString (bounce_type email)
      then Verifying
      else if status email = js ''bounced'' \<or> truthyString (bounce_type email)
      then BounceBadge (title (getBounceExplanation (bounce_type email) None))
      else if status email = js ''replied''
              \<or> (truthyNumber (reply_count email) \<and> numberGreater (reply_count email) 0)
      then Replied (repliedSuffix (reply_count email))
      else if status email = js ''opened''
      then (if is_valid_open email = Some False then Suspicious else Opened)
      else if status email = js ''delivered'' then Delivered
      else Sent)"

text \<open>
  The selection as the description of \<open>getStatusBadge\<close> states it, with its tests
  "\<open>bounce_type\<close> is null" and "\<open>bounce_type\<close> is non-null".
\<close>

definition describedStatusBadge :: "(jsstring \<Rightarrow> int option) \<Rightarrow> int \<Rightarrow> EmailHistoryItem \<Rightarrow> Badge" where
  "describedStatusBadge parseDate now email =
     (if status email = js ''sent''
         \<and> (\<exists>t. parseDate (sent_at email) = Some t \<and> now - t < 60000)
         \<and> bounce_type email = None
      then Verifying
      else if status email = js ''bounced'' \<or> bounce_type email \<noteq> None
      then BounceBadge (title (getBounceExplanation (bounce_type email) None))
      else if status email = js ''replied'' \<or> (\<exists>n. reply_count email = Some n \<and> n > 0)
      then Replied (repliedSuffix (reply_count email))
      else if status email = js ''opened''
      then (if is_valid_open email = Some False then Suspicious else Opened)
      else if status email = js ''delivered'' then Delivered
      else Sent)"

text \<open>Reading an empty \<open>bounce_type\<close> as an absent one.\<close>

definition emptyBounceTypeAsNull :: "EmailHistoryItem \<Rightarrow> EmailHistoryItem" where
  "emptyBounceTypeAsNull email =
     email\<lparr>bounce_type := (if bounce_type email = Some [] then None else bounce_type email)\<rparr>"

subsection \<open>The INSERT branch of the realtime callback (lines 213-224)\<close>

datatype EntityType = Contact | Lead | Account

definition belongsToEntity :: "EntityType \<Rightarrow> jsstring \<Rightarrow> EmailHistoryItem \<Rightarrow> bool" where
  "belongsToEntity entityType entityId newEmail \<longleftrightarrow>
     (entityType = Lead \<and> lead_id newEmail = Some entityId)
     \<or> (entityType = Contact \<and> contact_id newEmail = Some entityId)
     \<or> (entityType = Account \<and> account_id newEmail = Some entityId)"

text \<open>The state update of the branch: \<open>setEmails(prev => [newEmail, ...prev])\<close> or none.\<close>

definition onInsert ::
  "EntityType \<Rightarrow> jsstring \<Rightarrow> EmailHistoryItem \<Rightarrow> EmailHistoryItem list \<Rightarrow> EmailHistoryItem list" where
  "onInsert entityType entityId newEmail prev =
     (if belongsToEntity entityType entityId newEmail then newEmail # prev else prev)"

text \<open>The id field that corresponds to an entity type.\<close>

fun entityIdField :: "EntityType \<Rightarrow> EmailHistoryItem \<Rightarrow> jsstring option" where
  "entityIdField Lead e = lead_id e"
| "entityIdField Contact e = contact_id e"
| "entityIdField Account e = account_id e"

subsection \<open>\<open>fetchEmails\<close> (lines 167-192)\<close>

text \<open>
  The awaited query either rejects with a value or resolves to \<open>{ data, error }\<close>.
  The state is the two \<open>useState\<close> cells the function writes, and the console.
\<close>

datatype 'e QueryOutcome =
    Rejected 'e
  | Resolved "EmailHistoryItem list option" "'e option"

record 'e ViewState =
  emails :: "EmailHistoryItem list"
  loading :: bool
  consoleErrors :: "'e list"

text \<open>The \<open>try\<close> block: \<open>Inl\<close> is a thrown value, \<open>Inr\<close> the state at its end.\<close>

definition tryBlock :: "'e QueryOutcome \<Rightarrow> 'e ViewState \<Rightarrow> 'e + 'e ViewState" where
  "tryBlock q s =
     (case q of
        Rejected e \<Rightarrow> Inl e
      | Resolved queryData queryError \<Rightarrow>
          (case queryError of
             Some e \<Rightarrow> Inl e
           | None \<Rightarrow> Inr (s\<lparr>emails := (case queryData of None \<Rightarrow> [] | Some rows \<Rightarrow> rows)\<rparr>)))"

definition fetchEmails :: "'e QueryOutcome \<Rightarrow> 'e ViewState \<Rightarrow> 'e ViewState" where
  "fetchEmails q s =
     (let s1 = s\<lparr>loading := True\<rparr>;
          s2 = (case tryBlock q s1 of
                  Inl e \<Rightarrow> s1\<lparr>consoleErrors := consoleErrors s1 @ [e]\<rparr>
                | Inr s' \<Rightarrow> s')
      in s2\<lparr>loading := False\<rparr>)"

section \<open>Dashboard widgets (lines 699-759)\<close>

datatype WidgetSize = Xs | Small | Medium | Large | Xl

text \<open>
  A widget key is a string at run time; the type \<open>WidgetKey\<close> of the source is a
  compile-time annotation, and the initialisation effect itself tests whether a key
  belongs to the catalog. The field \<open>size\<close> of the source is \<open>size_w\<close> here.
\<close>

type_synonym WidgetKey = jsstring

record DashboardWidget =
  key :: WidgetKey
  label :: jsstring
  icon :: LucideIcon
  visible :: bool
  size_w :: WidgetSize

definition widget :: "string \<Rightarrow> string \<Rightarrow> LucideIcon \<Rightarrow> bool \<Rightarrow> WidgetSize \<Rightarrow> DashboardWidget" where
  "widget k l i v s = \<lparr> key = js k, label = js l, icon = i, visible = v, size_w = s \<rparr>"

definition DEFAULT_WIDGETS :: "DashboardWidget list" where
  "DEFAULT_WIDGETS = [
     widget ''leads'' ''My Leads'' FileText True Small,
     widget ''contacts'' ''My Contacts'' Users True Small,
     widget ''deals'' ''My Deals'' Briefcase True Small,
     widget ''actionItems'' ''Action Items'' Clock True Small,
     widget ''quickActions'' ''Quick Actions'' Zap True Medium,
     widget ''upcomingMeetings'' ''Upcoming Meetings'' Calendar True Medium,
     widget ''taskReminders'' ''Task Reminders'' Bell True Medium,
     widget ''recentActivities'' ''Recent Activities'' Activity True Medium,
     widget ''performance'' ''My Performance'' TrendingUp True Large,
     widget ''leadStatus'' ''Lead Status Overview'' BarChart3 True Large,
     widget ''salesTarget'' ''Sales Target'' Target False Medium,
     widget ''revenueChart'' ''Revenue Chart'' LineChart False Large,
     widget ''pipelineValue'' ''Pipeline Value'' DollarSign False Small,
     widget ''conversionRate'' ''Conversion Rate'' Percent False Small,
     widget ''dealForecast'' ''Deal Forecast'' ArrowUpRight False Large,
     widget ''emailStats'' ''Email Statistics'' Mail False Medium,
     widget ''callLog'' ''Call Log'' PhoneCall False Medium,
     widget ''teamActivity'' ''Team Activity'' MessageSquare False Medium,
     widget ''completedTasks'' ''Completed Tasks'' CheckCircle False Small,
     widget ''overdueItems'' ''Overdue Items'' AlertTriangle False Small,
     widget ''taskProgress'' ''Task Progress'' ListTodo False Medium,
     widget ''topDeals'' ''Top Deals'' Trophy False Medium,
     widget ''regionStats'' ''Region Statistics'' Globe False Large,
     widget ''geoDistribution'' ''Geo Distribution'' MapPin False Large,
     widget ''leadSources'' ''Lead Sources'' Filter False Medium,
     widget ''accountHealth'' ''Account Health'' Building2 False Medium,
     widget ''customerRetention'' ''Customer Retention'' Star False Small,
     widget ''winLossRatio'' ''Win/Loss Ratio'' PieChart False Small,
     widget ''salesVelocity'' ''Sales Velocity'' Gauge False Medium,
     widget ''growthTrend'' ''Growth Trend'' TrendingUp False Large ]"

subsection \<open>Operations of the customisation dialog (lines 812-846)\<close>

text \<open>
  Each operation maps the current widget list to the list that \<open>setWidgets\<close>
  installs. \<open>toggleWidget\<close> and \<open>changeSize\<close> pass an updater of the previous
  list; \<open>handleReset\<close> does not read it.
\<close>

definition toggleWidget :: "WidgetKey \<Rightarrow> DashboardWidget list \<Rightarrow> DashboardWidget list" where
  "toggleWidget k prev = map (\<lambda>w. if key w = k then w\<lparr>visible := \<not> visible w\<rparr> else w) prev"

definition changeSize :: "WidgetKey \<Rightarrow> WidgetSize \<Rightarrow> DashboardWidget list \<Rightarrow> DashboardWidget list" where
  "changeSize k s prev = map (\<lambda>w. if key w = k then w\<lparr>size_w := s\<rparr> else w) prev"

definition handleReset :: "DashboardWidget list \<Rightarrow> DashboardWidget list" where
  "handleReset prev = map (\<lambda>w. w\<lparr>visible := True\<rparr>) DEFAULT_WIDGETS"

subsection \<open>\<open>Array.prototype.splice\<close> as \<open>handleDragEnd\<close> uses it (lines 824-832)\<close>

text \<open>
  \<open>splice(start, ...)\<close> first turns \<open>start\<close> into a position between \<open>0\<close> and the
  length: a negative \<open>start\<close> counts from the end, and both directions are clamped.
  Indices are integral JavaScript numbers.
\<close>

definition spliceStart :: "int \<Rightarrow> nat \<Rightarrow> nat" where
  "spliceStart start len =
     (if start < 0 then nat (max (int len + start) 0) else min (nat start) len)"

text \<open>\<open>items.splice(start, 1)\<close>: the removed elements and the array that remains.\<close>

definition spliceRemove1 :: "int \<Rightarrow> 'a list \<Rightarrow> 'a list \<times> 'a list" where
  "spliceRemove1 start items =
     (let a = spliceStart start (length items)
      in (take 1 (drop a items), take a items @ drop (a + 1) items))"

text \<open>\<open>items.splice(start, 0, x)\<close>: the array after the insertion.\<close>

definition spliceInsert :: "int \<Rightarrow> 'a \<Rightarrow> 'a list \<Rightarrow> 'a list" where
  "spliceInsert start x items =
     (let a = spliceStart start (length items)
      in take a items @ x # drop a items)"

record DraggableLocation =
  droppableId :: jsstring
  index :: int

record DropResult =
  source :: DraggableLocation
  destination :: "DraggableLocation option"

text \<open>
  \<open>handleDragEnd\<close> returns the next widget list. Without a destination it returns
  before \<open>setWidgets\<close>, so the list stays. When \<open>splice\<close> removes nothing (the source
  index is outside the array), the destructuring binds \<open>reorderedItem\<close> to
  \<open>undefined\<close> and the source inserts that value, which is no widget: this outcome
  is \<open>None\<close>.
\<close>

definition handleDragEnd :: "DropResult \<Rightarrow> DashboardWidget list \<Rightarrow> DashboardWidget list option" where
  "handleDragEnd result widgets =
     (case destination result of
        None \<Rightarrow> Some widgets
      | Some dest \<Rightarrow>
          (case spliceRemove1 (index (source result)) widgets of
             (reorderedItem # _, items) \<Rightarrow> Some (spliceInsert (index dest) reorderedItem items)
           | ([], items) \<Rightarrow> None))"

text \<open>
  Removing the element at a position and inserting an element at a position, as the
  reordering is described.
\<close>

definition removeAt :: "nat \<Rightarrow> 'a list \<Rightarrow> 'a list" where
  "removeAt i xs = take i xs @ drop (Suc i) xs"

definition insertAt :: "nat \<Rightarrow> 'a \<Rightarrow> 'a list \<Rightarrow> 'a list" where
  "insertAt i x xs = take i xs @ x # drop i xs"

subsection \<open>\<open>handleSave\<close> (lines 834-842)\<close>

text \<open>
  \<open>WidgetSizeConfig\<close> is an object used as a dictionary from key to size. The result
  is the argument triple of the call \<open>onSave(visible, order, sizes)\<close>; the loop
  \<open>widgets.forEach(w => sizes[w.key] = w.size)\<close> is a left fold from the empty object.
\<close>

type_synonym WidgetSizeConfig = "WidgetKey \<rightharpoonup> WidgetSize"

text \<open>The loop body \<open>sizes[w.key] = w.size\<close>.\<close>

definition assignSize :: "DashboardWidget \<Rightarrow> WidgetSizeConfig \<Rightarrow> WidgetSizeConfig" where
  "assignSize w sizes = sizes(key w \<mapsto> size_w w)"

definition handleSave ::
  "DashboardWidget list \<Rightarrow> WidgetKey list \<times> WidgetKey list \<times> WidgetSizeConfig" where
  "handleSave widgets =
     (let visibleKeys = map key (filter visible widgets);
          order = map key widgets;
          sizes = fold assignSize widgets Map.empty
      in (visibleKeys, order, sizes))"

subsection \<open>The initialisation effect (lines 782-810)\<close>

text \<open>
  \<open>widgetSizes[key] || defaultWidget.size\<close>: a size is a non-empty string, hence
  truthy, so the default is taken exactly when the dictionary has no entry.
\<close>

definition sizeOr :: "WidgetSizeConfig \<Rightarrow> WidgetKey \<Rightarrow> WidgetSize \<Rightarrow> WidgetSize" where
  "sizeOr widgetSizes k d = (case widgetSizes k of None \<Rightarrow> d | Some s \<Rightarrow> s)"

text \<open>The body of the first \<open>forEach\<close>, over \<open>widgetOrder\<close>.\<close>

definition addSaved ::
  "WidgetKey list \<Rightarrow> WidgetSizeConfig \<Rightarrow> WidgetKey \<Rightarrow> DashboardWidget list \<Rightarrow> DashboardWidget list" where
  "addSaved visibleWidgets widgetSizes k orderedWidgets =
     (case find (\<lambda>w. key w = k) DEFAULT_WIDGETS of
        None \<Rightarrow> orderedWidgets
      | Some defaultWidget \<Rightarrow>
          orderedWidgets @ [defaultWidget\<lparr>
            visible := k \<in> set visibleWidgets,
            size_w := sizeOr widgetSizes k (size_w defaultWidget)\<rparr>])"

text \<open>The body of the second \<open>forEach\<close>, over \<open>DEFAULT_WIDGETS\<close>.\<close>

definition addMissing ::
  "WidgetKey list \<Rightarrow> WidgetSizeConfig \<Rightarrow> DashboardWidget \<Rightarrow> DashboardWidget list \<Rightarrow> DashboardWidget list" where
  "addMissing visibleWidgets widgetSizes w orderedWidgets =
     (if find (\<lambda>ow. key ow = key w) orderedWidgets = None
      then orderedWidgets @ [w\<lparr>
            visible := key w \<in> set visibleWidgets,
            size_w := sizeOr widgetSizes (key w) (size_w w)\<rparr>]
      else orderedWidgets)"

definition initWidgets ::
  "WidgetKey list \<Rightarrow> WidgetKey list \<Rightarrow> WidgetSizeConfig \<Rightarrow> DashboardWidget list" where
  "initWidgets visibleWidgets widgetOrder widgetSizes =
     fold (addMissing visibleWidgets widgetSizes) DEFAULT_WIDGETS
       (fold (addSaved visibleWidgets widgetSizes) widgetOrder [])"

text \<open>
  What a widget is apart from its two adjustable fields, and the property that a widget
  list holds exactly the catalog's widgets, each once.
\<close>

definition ident :: "DashboardWidget \<Rightarrow> WidgetKey \<times> jsstring \<times> LucideIcon" where
  "ident w = (key w, label w, icon w)"

definition catalogExactlyOnce :: "DashboardWidget list \<Rightarrow> bool" where
  "catalogExactlyOnce ws \<longleftrightarrow>
     mset (map ident ws) = mset (map ident DEFAULT_WIDGETS) \<and> distinct (map key ws)"

subsection \<open>A small widget list for concrete evaluation\<close>

definition exampleWidgets :: "DashboardWidget list" where
  "exampleWidgets = [widget ''leads'' ''My Leads'' FileText True Small,
                     widget ''deals'' ''My Deals'' Briefcase False Large]"

definition exampleDrag :: DropResult where
  "exampleDrag = \<lparr> source = \<lparr> droppableId = js ''widgets'', index = 0 \<rparr>,
                   destination = Some \<lparr> droppableId = js ''widgets'', index = 1 \<rparr> \<rparr>"

subsection \<open>An email and a clock for concrete evaluation\<close>

definition exampleEmail :: EmailHistoryItem where
  "exampleEmail = \<lparr>
     id_email = js ''e1'', subject = js ''Hello'', recipient_email = js ''a@example.com'',
     recipient_name = None, sender_email = js ''b@example.com'', body = None,
     status = js ''sent'', sent_at = js ''2024-05-01T10:00:00.000Z'', opened_at = None,
     open_count = None, unique_opens = None, bounce_type = Some [], bounce_reason = None,
     bounced_at = None, is_valid_open = None, reply_count = Some 2, replied_at = None,
     last_reply_at = None, lead_id = Some (js ''L1''), contact_id = None, account_id = None \<rparr>"

definition exampleParseDate :: "jsstring \<Rightarrow> int option" where
  "exampleParseDate s = (if s = js ''2024-05-01T10:00:00.000Z'' then Some 1714557600000 else None)"

definition exampleNow :: int where
  "exampleNow = 1714557605000"

section \<open>Facts about string literals\<close>

lemma js_eq_iff [simp]: "js a = js b \<longleftrightarrow> a = b"
proof -
  have "inj (of_char :: char \<Rightarrow> nat)"
    by (rule inj_of_char)
  then have "inj (map (of_char :: char \<Rightarrow> nat))"
    by simp
  then show ?thesis
    unfolding js_def by (simp add: inj_eq)
qed

lemma js_eq_Nil_iff [simp]: "js a = [] \<longleftrightarrow> a = []" "[] = js a \<longleftrightarrow> a = []"
  by (auto simp: js_def)

lemma length_js [simp]: "length (js s) = length s"
  by (simp add: js_def)

section \<open>Bounce classification\<close>

text \<open>
  Claim C2. \<open>getBounceExplanation\<close> classifies by \<open>bounce_type\<close> alone: \<open>'hard'\<close>
  gives the permanent-failure explanation (title "Delivery Failed", subtitle "Email
  address doesn't exist", severity error), \<open>'soft'\<close> the temporary one (title
  "Delivery Delayed", severity warning), every other value, \<open>null\<close> included, the
  generic one (title "Delivery Failed", severity error); the second argument never
  changes the result.
\<close>

theorem getBounceExplanation_classifies:
  "title (getBounceExplanation (Some (js ''hard'')) r) = js ''Delivery Failed''
   \<and> subtitle (getBounceExplanation (Some (js ''hard'')) r) = js ''Email address doesn't exist''
   \<and> severity (getBounceExplanation (Some (js ''hard'')) r) = SevError
   \<and> getBounceExplanation (Some (js ''hard'')) r = hardBounce
   \<and> title (getBounceExplanation (Some (js ''soft'')) r) = js ''Delivery Delayed''
   \<and> severity (getBounceExplanation (Some (js ''soft'')) r) = SevWarning
   \<and> getBounceExplanation (Some (js ''soft'')) r = softBounce
   \<and> (bt \<noteq> Some (js ''hard'') \<and> bt \<noteq> Some (js ''soft'') \<longrightarrow>
        getBounceExplanation bt r = genericBounce
        \<and> title (getBounceExplanation bt r) = js ''Delivery Failed''
        \<and> severity (getBounceExplanation bt r) = SevError)
   \<and> getBounceExplanation None r = genericBounce
   \<and> getBounceExplanation bt r = getBounceExplanation bt r'"
  by (simp add: getBounceExplanation_def hardBounce_def softBounce_def genericBounce_def)

theorem getBounceExplanation_classifies_witness:
  "Some (js ''transient'') \<noteq> Some (js ''hard'') \<and> Some (js ''transient'') \<noteq> Some (js ''soft'')
   \<and> getBounceExplanation (Some (js ''transient'')) (Some (js ''550 5.1.1'')) = genericBounce
   \<and> getBounceExplanation (Some (js ''transient'')) (Some (js ''550 5.1.1'')) =
       getBounceExplanation (Some (js ''transient'')) None"
proof -
  have distinct_types:
    "Some (js ''transient'') \<noteq> Some (js ''hard'') \<and> Some (js ''transient'') \<noteq> Some (js ''soft'')"
    by simp
  from distinct_types getBounceExplanation_classifies
    [of "Some (js ''550 5.1.1'')" "Some (js ''transient'')" None]
  show ?thesis by blast
qed

section \<open>The widget catalog\<close>

lemma keys_DEFAULT_WIDGETS:
  "map key DEFAULT_WIDGETS = map js [''leads'', ''contacts'', ''deals'', ''actionItems'', ''quickActions'',
     ''upcomingMeetings'', ''taskReminders'', ''recentActivities'', ''performance'', ''leadStatus'',
     ''salesTarget'', ''revenueChart'', ''pipelineValue'', ''conversionRate'', ''dealForecast'',
     ''emailStats'', ''callLog'', ''teamActivity'', ''completedTasks'', ''overdueItems'',
     ''taskProgress'', ''topDeals'', ''regionStats'', ''geoDistribution'', ''leadSources'',
     ''accountHealth'', ''customerRetention'', ''winLossRatio'', ''salesVelocity'', ''growthTrend'']"
  by (simp add: DEFAULT_WIDGETS_def widget_def)

lemma distinct_keys_DEFAULT_WIDGETS: "distinct (map key DEFAULT_WIDGETS)"
  unfolding keys_DEFAULT_WIDGETS by simp

lemma toggle_twice: "toggleWidget k (toggleWidget k ws) = ws"
  by (induction ws) (auto simp: toggleWidget_def)

text \<open>
  Claim C9. \<open>toggleWidget(k)\<close> negates the visible flag of the widget with key \<open>k\<close>
  and changes nothing else: a widget with another key is unchanged, the key, label, icon
  and size of every widget are unchanged, and toggling twice restores the list.
\<close>

theorem toggleWidget_frame:
  "length (toggleWidget k ws) = length ws
   \<and> (\<forall>i < length ws.
         (key (ws ! i) \<noteq> k \<longrightarrow> toggleWidget k ws ! i = ws ! i)
       \<and> (key (ws ! i) = k \<longrightarrow> visible (toggleWidget k ws ! i) = (\<not> visible (ws ! i)))
       \<and> key (toggleWidget k ws ! i) = key (ws ! i)
       \<and> label (toggleWidget k ws ! i) = label (ws ! i)
       \<and> icon (toggleWidget k ws ! i) = icon (ws ! i)
       \<and> size_w (toggleWidget k ws ! i) = size_w (ws ! i))
   \<and> toggleWidget k (toggleWidget k ws) = ws"
  by (simp add: toggle_twice) (simp add: toggleWidget_def)


theorem toggleWidget_frame_witness:
  "(0::nat) < length exampleWidgets \<and> (1::nat) < length exampleWidgets
   \<and> key (exampleWidgets ! 0) = js ''leads'' \<and> key (exampleWidgets ! 1) \<noteq> js ''leads''
   \<and> visible (toggleWidget (js ''leads'') exampleWidgets ! 0) = (\<not> visible (exampleWidgets ! 0))
   \<and> toggleWidget (js ''leads'') exampleWidgets ! 1 = exampleWidgets ! 1
   \<and> toggleWidget (js ''leads'') (toggleWidget (js ''leads'') exampleWidgets) = exampleWidgets"
proof -
  have facts: "(0::nat) < length exampleWidgets" "(1::nat) < length exampleWidgets"
    "key (exampleWidgets ! 0) = js ''leads''" "key (exampleWidgets ! 1) \<noteq> js ''leads''"
    by (simp_all add: exampleWidgets_def widget_def)
  from facts toggleWidget_frame[of "js ''leads''" exampleWidgets]
  show ?thesis by blast
qed

section \<open>Saving\<close>

lemma assignSize_apply:
  "assignSize w m k = (if k = key w then Some (size_w w) else m k)"
  by (simp add: assignSize_def)

lemma dom_assignSize: "dom (assignSize w m) = insert (key w) (dom m)"
  by (simp add: assignSize_def)

lemma fold_assignSize_Cons:
  "fold assignSize (a # ws) m0 = fold assignSize ws (assignSize a m0)"
  by (simp only: fold_simps o_apply)

lemma fold_sizes_other:
  "k \<notin> key ` set ws \<Longrightarrow> fold assignSize ws m0 k = m0 k"
proof (induction ws arbitrary: m0)
  case Nil
  show ?case by (simp only: fold_simps id_apply)
next
  case (Cons a ws)
  from Cons.prems have ne: "k \<noteq> key a" and rest: "k \<notin> key ` set ws"
    by auto
  have "fold assignSize (a # ws) m0 k = assignSize a m0 k"
    unfolding fold_assignSize_Cons by (rule Cons.IH[OF rest])
  also have "\<dots> = m0 k"
    using ne by (simp only: assignSize_apply if_False)
  finally show ?case .
qed

lemma fold_sizes_dom:
  "dom (fold assignSize ws m0) = dom m0 \<union> key ` set ws"
proof (induction ws arbitrary: m0)
  case Nil
  show ?case by (simp only: fold_simps id_apply) simp
next
  case (Cons a ws)
  have "dom (fold assignSize (a # ws) m0) = dom (assignSize a m0) \<union> key ` set ws"
    unfolding fold_assignSize_Cons by (rule Cons.IH)
  also have "\<dots> = dom m0 \<union> key ` set (a # ws)"
    unfolding dom_assignSize by auto
  finally show ?case .
qed

lemma fold_sizes_agree:
  "k \<in> key ` set ws \<Longrightarrow> \<forall>w\<in>set ws. key w = k \<longrightarrow> size_w w = s \<Longrightarrow>
   fold assignSize ws m0 k = Some s"
proof (induction ws arbitrary: m0)
  case Nil
  then show ?case by simp
next
  case (Cons a ws)
  show ?case
  proof (cases "k \<in> key ` set ws")
    case True
    moreover have "\<forall>w\<in>set ws. key w = k \<longrightarrow> size_w w = s"
      using Cons.prems(2) by simp
    ultimately have "fold assignSize ws (assignSize a m0) k = Some s"
      by (rule Cons.IH)
    then show ?thesis by (simp only: fold_assignSize_Cons)
  next
    case False
    with Cons.prems have a: "key a = k" "size_w a = s" by auto
    have "fold assignSize (a # ws) m0 k = assignSize a m0 k"
      unfolding fold_assignSize_Cons by (rule fold_sizes_other[OF False])
    also have "\<dots> = Some s"
      using a by (simp add: assignSize_apply)
    finally show ?thesis .
  qed
qed

lemma handleSave_parts:
  assumes h: "handleSave ws = (vis, ord, sizes)"
  shows "ord = map key ws" "vis = map key (filter visible ws)" "sizes = fold assignSize ws Map.empty"
  using h unfolding handleSave_def Let_def by simp_all

text \<open>
  Claim C5. \<open>handleSave\<close> passes to \<open>onSave\<close>: as order the keys of the list in
  display order; as visible the keys of the widgets whose flag is true, in the same order,
  hence a subsequence of order; as sizes a dictionary whose keys are those of the list and
  which gives, for a widget whose key determines its size in the list (in particular when
  keys are distinct), that widget's size.
\<close>

theorem handleSave_payload:
  assumes h: "handleSave ws = (vis, ord, sizes)"
  shows "ord = map key ws
   \<and> vis = map key (filter visible ws)
   \<and> subseq vis ord
   \<and> dom sizes = set ord
   \<and> (\<forall>w\<in>set ws. (\<forall>w'\<in>set ws. key w' = key w \<longrightarrow> size_w w' = size_w w) \<longrightarrow>
         sizes (key w) = Some (size_w w))
   \<and> (distinct ord \<longrightarrow> (\<forall>w\<in>set ws. sizes (key w) = Some (size_w w)))"
proof -
  note o = handleSave_parts(1)[OF h] and v = handleSave_parts(2)[OF h] and s = handleSave_parts(3)[OF h]
  have sub: "subseq vis ord"
    unfolding o v by (rule subseq_map) (rule subseq_filter_left)
  have d: "dom sizes = set ord"
    unfolding s o by (simp add: fold_sizes_dom)
  have a: "sizes (key w) = Some (size_w w)"
    if "w \<in> set ws" "\<forall>w'\<in>set ws. key w' = key w \<longrightarrow> size_w w' = size_w w" for w
    unfolding s
  proof (rule fold_sizes_agree)
    show "key w \<in> key ` set ws" using that(1) by (rule imageI)
    show "\<forall>w'\<in>set ws. key w' = key w \<longrightarrow> size_w w' = size_w w" by (rule that(2))
  qed
  have u: "w' = w" if "distinct ord" "w \<in> set ws" "w' \<in> set ws" "key w' = key w" for w w'
  proof -
    from that(1) have "inj_on key (set ws)"
      unfolding o by (simp add: distinct_map)
    then show ?thesis
      using that(2-4) by (simp add: inj_on_def)
  qed
  have b: "sizes (key w) = Some (size_w w)" if "distinct ord" "w \<in> set ws" for w
  proof -
    have "\<forall>w'\<in>set ws. key w' = key w \<longrightarrow> size_w w' = size_w w"
      using u[OF that] by blast
    with that(2) show ?thesis by (rule a)
  qed
  from o v sub d a b show ?thesis by (intro conjI ballI impI)
qed


theorem handleSave_payload_witness:
  "handleSave exampleWidgets =
     (fst (handleSave exampleWidgets), fst (snd (handleSave exampleWidgets)),
      snd (snd (handleSave exampleWidgets)))
   \<and> fst (snd (handleSave exampleWidgets)) = [js ''leads'', js ''deals'']
   \<and> fst (handleSave exampleWidgets) = [js ''leads'']
   \<and> distinct (fst (snd (handleSave exampleWidgets)))
   \<and> exampleWidgets ! 1 \<in> set exampleWidgets
   \<and> snd (snd (handleSave exampleWidgets)) (js ''deals'') = Some Large"
proof -
  have h: "handleSave exampleWidgets =
     (fst (handleSave exampleWidgets), fst (snd (handleSave exampleWidgets)),
      snd (snd (handleSave exampleWidgets)))"
    by simp
  note t = handleSave_payload[OF h]
  have k: "map key exampleWidgets = [js ''leads'', js ''deals'']"
    and f: "map key (filter visible exampleWidgets) = [js ''leads'']"
    and m: "exampleWidgets ! 1 \<in> set exampleWidgets"
    and k1: "key (exampleWidgets ! 1) = js ''deals''" and s1: "size_w (exampleWidgets ! 1) = Large"
    by (simp_all add: exampleWidgets_def widget_def)
  have o: "fst (snd (handleSave exampleWidgets)) = [js ''leads'', js ''deals'']"
    using t[THEN conjunct1] unfolding k .
  have v: "fst (handleSave exampleWidgets) = [js ''leads'']"
    using t[THEN conjunct2, THEN conjunct1] unfolding f .
  have d: "distinct (fst (snd (handleSave exampleWidgets)))"
    unfolding o by simp
  note last = t[THEN conjunct2, THEN conjunct2, THEN conjunct2, THEN conjunct2, THEN conjunct2]
  from last[THEN mp, OF d, THEN bspec, OF m]
  have r: "snd (snd (handleSave exampleWidgets)) (js ''deals'') = Some Large"
    unfolding k1 s1 .
  show ?thesis
    by (intro conjI) (rule h o v d m r)+
qed

section \<open>Resetting\<close>

lemma hidden_DEFAULT_WIDGETS:
  "length (filter (\<lambda>d. \<not> visible d) DEFAULT_WIDGETS) = 20"
  by (simp add: DEFAULT_WIDGETS_def widget_def)

text \<open>
  Claim C8. \<open>handleReset\<close> replaces the list by the catalog in catalog order, with the
  catalog's labels, icons and sizes, and with every widget visible, the twenty widgets
  whose catalog entry is hidden included.
\<close>

theorem handleReset_all_visible:
  "map key (handleReset prev) = map key DEFAULT_WIDGETS
   \<and> map label (handleReset prev) = map label DEFAULT_WIDGETS
   \<and> map icon (handleReset prev) = map icon DEFAULT_WIDGETS
   \<and> map size_w (handleReset prev) = map size_w DEFAULT_WIDGETS
   \<and> (\<forall>w \<in> set (handleReset prev). visible w)
   \<and> (\<forall>i < length DEFAULT_WIDGETS. visible (handleReset prev ! i))
   \<and> length (filter (\<lambda>d. \<not> visible d) DEFAULT_WIDGETS) = 20"
proof -
  have fields: "map key (handleReset prev) = map key DEFAULT_WIDGETS
      \<and> map label (handleReset prev) = map label DEFAULT_WIDGETS
      \<and> map icon (handleReset prev) = map icon DEFAULT_WIDGETS
      \<and> map size_w (handleReset prev) = map size_w DEFAULT_WIDGETS"
    by (simp add: handleReset_def comp_def)
  have all: "\<forall>w \<in> set (handleReset prev). visible w"
    by (auto simp: handleReset_def)
  have len: "length (handleReset prev) = length DEFAULT_WIDGETS"
    by (simp add: handleReset_def)
  have nth: "\<forall>i < length DEFAULT_WIDGETS. visible (handleReset prev ! i)"
    using all len by (metis nth_mem)
  from fields all nth hidden_DEFAULT_WIDGETS show ?thesis by blast
qed


theorem handleReset_all_visible_witness:
  "(10::nat) < length DEFAULT_WIDGETS \<and> \<not> visible (DEFAULT_WIDGETS ! 10)
   \<and> visible (handleReset [] ! 10)"
proof -
  have facts: "(10::nat) < length DEFAULT_WIDGETS" "\<not> visible (DEFAULT_WIDGETS ! 10)"
    by (simp_all add: DEFAULT_WIDGETS_def widget_def)
  from facts handleReset_all_visible[of "[]"] show ?thesis by blast
qed

section \<open>Drag and drop\<close>

lemma spliceStart_le: "spliceStart i n \<le> n"
  by (auto simp: spliceStart_def max_def)

lemma spliceStart_in_range: "0 \<le> i \<Longrightarrow> i < int n \<Longrightarrow> spliceStart i n = nat i"
  by (simp add: spliceStart_def)

lemma spliceStart_insert_range: "0 \<le> i \<Longrightarrow> i \<le> int n \<Longrightarrow> spliceStart i n = nat i"
  by (simp add: spliceStart_def)

lemma spliceRemove1_inside:
  assumes "spliceStart i (length xs) < length xs"
  shows "spliceRemove1 i xs =
    ([xs ! spliceStart i (length xs)], removeAt (spliceStart i (length xs)) xs)"
proof -
  let ?a = "spliceStart i (length xs)"
  from assms have "drop ?a xs = xs ! ?a # drop (Suc ?a) xs"
    by (simp add: Cons_nth_drop_Suc)
  then have "take 1 (drop ?a xs) = [xs ! ?a]"
    by simp
  then show ?thesis
    by (simp add: spliceRemove1_def removeAt_def Let_def)
qed

lemma spliceRemove1_outside:
  assumes "\<not> spliceStart i (length xs) < length xs"
  shows "fst (spliceRemove1 i xs) = []"
  using assms by (simp add: spliceRemove1_def Let_def)

lemma spliceInsert_insertAt:
  "spliceInsert j x xs = insertAt (spliceStart j (length xs)) x xs"
  by (simp add: spliceInsert_def insertAt_def Let_def)

lemma length_removeAt: "i < length xs \<Longrightarrow> length (removeAt i xs) = length xs - 1"
  by (simp add: removeAt_def)

lemma mset_removeAt: "i < length xs \<Longrightarrow> add_mset (xs ! i) (mset (removeAt i xs)) = mset xs"
proof -
  assume "i < length xs"
  then have "xs = take i xs @ xs ! i # drop (Suc i) xs"
    by (rule id_take_nth_drop)
  then have "mset xs = mset (take i xs @ xs ! i # drop (Suc i) xs)"
    by simp
  then show ?thesis
    by (simp add: removeAt_def)
qed

lemma mset_insertAt: "mset (insertAt j x xs) = add_mset x (mset xs)"
proof -
  have "mset (take j xs) + mset (drop j xs) = mset xs"
    by (simp flip: mset_append)
  then show ?thesis
    by (simp add: insertAt_def)
qed

lemma length_insertAt: "length (insertAt j x xs) = Suc (length xs)"
  by (simp add: insertAt_def)

lemma nth_insertAt: "j \<le> length xs \<Longrightarrow> insertAt j x xs ! j = x"
  by (simp add: insertAt_def nth_append)

lemma handleDragEnd_no_destination:
  "destination r = None \<Longrightarrow> handleDragEnd r ws = Some ws"
  by (simp add: handleDragEnd_def)

lemma handleDragEnd_destination:
  assumes "destination r = Some d"
  shows "handleDragEnd r ws =
    (let a = spliceStart (index (source r)) (length ws) in
     if a < length ws
     then Some (insertAt (spliceStart (index d) (length ws - 1)) (ws ! a) (removeAt a ws))
     else None)"
proof (cases "spliceStart (index (source r)) (length ws) < length ws")
  case True
  then show ?thesis
    using assms
    by (simp add: handleDragEnd_def spliceRemove1_inside spliceInsert_insertAt length_removeAt Let_def)
next
  case False
  obtain rm items where s: "spliceRemove1 (index (source r)) ws = (rm, items)"
    by (cases "spliceRemove1 (index (source r)) ws")
  with spliceRemove1_outside[OF False] have "rm = []" by simp
  with s False assms show ?thesis
    by (simp add: handleDragEnd_def)
qed

lemma handleDragEnd_mset:
  assumes "handleDragEnd r ws = Some ws'"
  shows "mset ws' = mset ws"
proof (cases "destination r")
  case None
  with assms show ?thesis by (simp add: handleDragEnd_no_destination)
next
  case (Some d)
  let ?a = "spliceStart (index (source r)) (length ws)"
  from assms have a: "?a < length ws"
    and w: "ws' = insertAt (spliceStart (index d) (length ws - 1)) (ws ! ?a) (removeAt ?a ws)"
    unfolding handleDragEnd_destination[OF Some] Let_def by (simp_all split: if_splits)
  show ?thesis
    unfolding w mset_insertAt by (rule mset_removeAt[OF a])
qed

text \<open>
  Claim C3. For a drag with a destination whose source and destination indices are
  positions of the list, \<open>handleDragEnd\<close> yields the list with the element at the
  source index removed and re-inserted at the destination index; whenever a widget
  was removed the result is a permutation of the list; a drag without destination
  leaves the list as it is.
\<close>

theorem handleDragEnd_reorders:
  "(destination r = None \<longrightarrow> handleDragEnd r ws = Some ws)
   \<and> (\<forall>d. destination r = Some d
          \<and> 0 \<le> index (source r) \<and> index (source r) < int (length ws)
          \<and> 0 \<le> index d \<and> index d < int (length ws) \<longrightarrow>
        handleDragEnd r ws =
          Some (insertAt (nat (index d)) (ws ! nat (index (source r)))
                  (removeAt (nat (index (source r))) ws))
        \<and> (insertAt (nat (index d)) (ws ! nat (index (source r)))
                  (removeAt (nat (index (source r))) ws)) ! nat (index d)
            = ws ! nat (index (source r)))
   \<and> (\<forall>ws'. handleDragEnd r ws = Some ws' \<longrightarrow> mset ws' = mset ws \<and> length ws' = length ws)"
proof (intro conjI allI impI)
  assume "destination r = None"
  then show "handleDragEnd r ws = Some ws" by (rule handleDragEnd_no_destination)
next
  fix d
  assume h: "destination r = Some d
          \<and> 0 \<le> index (source r) \<and> index (source r) < int (length ws)
          \<and> 0 \<le> index d \<and> index d < int (length ws)"
  then have s: "spliceStart (index (source r)) (length ws) = nat (index (source r))"
    by (simp add: spliceStart_in_range)
  from h have t: "spliceStart (index d) (length ws - Suc 0) = nat (index d)"
    by (intro spliceStart_insert_range) auto
  from h have lt: "nat (index (source r)) < length ws" by auto
  from h show "handleDragEnd r ws =
          Some (insertAt (nat (index d)) (ws ! nat (index (source r)))
                  (removeAt (nat (index (source r))) ws))"
    using lt by (simp add: handleDragEnd_destination s t Let_def)
  from h lt have "nat (index d) \<le> length (removeAt (nat (index (source r))) ws)"
    by (simp add: length_removeAt) linarith
  then show "(insertAt (nat (index d)) (ws ! nat (index (source r)))
                  (removeAt (nat (index (source r))) ws)) ! nat (index d)
            = ws ! nat (index (source r))"
    by (rule nth_insertAt)
next
  fix ws' assume "handleDragEnd r ws = Some ws'"
  then show "mset ws' = mset ws" by (rule handleDragEnd_mset)
  then show "length ws' = length ws" by (rule mset_eq_length)
qed

theorem handleDragEnd_reorders_witness:
  "destination exampleDrag = Some \<lparr> droppableId = js ''widgets'', index = 1 \<rparr>
   \<and> 0 \<le> index (source exampleDrag) \<and> index (source exampleDrag) < int (length exampleWidgets)
   \<and> (0::int) \<le> 1 \<and> 1 < int (length exampleWidgets)
   \<and> handleDragEnd exampleDrag exampleWidgets = Some [exampleWidgets ! 1, exampleWidgets ! 0]
   \<and> mset [exampleWidgets ! 1, exampleWidgets ! 0] = mset exampleWidgets
   \<and> handleDragEnd (exampleDrag\<lparr>destination := None\<rparr>) exampleWidgets = Some exampleWidgets"
proof -
  let ?d = "\<lparr> droppableId = js ''widgets'', index = 1 \<rparr>"
  have pre: "destination exampleDrag = Some ?d
     \<and> 0 \<le> index (source exampleDrag) \<and> index (source exampleDrag) < int (length exampleWidgets)
     \<and> 0 \<le> index ?d \<and> index ?d < int (length exampleWidgets)"
    by (simp add: exampleDrag_def exampleWidgets_def)
  note t = handleDragEnd_reorders[of exampleDrag exampleWidgets]
  from t[THEN conjunct2, THEN conjunct1, THEN spec, THEN mp, OF pre]
  have "handleDragEnd exampleDrag exampleWidgets =
      Some (insertAt (nat (index ?d)) (exampleWidgets ! nat (index (source exampleDrag)))
                  (removeAt (nat (index (source exampleDrag))) exampleWidgets))"
    by (rule conjunct1)
  also have "insertAt (nat (index ?d)) (exampleWidgets ! nat (index (source exampleDrag)))
                  (removeAt (nat (index (source exampleDrag))) exampleWidgets)
     = [exampleWidgets ! 1, exampleWidgets ! 0]"
    by (simp add: exampleDrag_def exampleWidgets_def insertAt_def removeAt_def)
  finally have r: "handleDragEnd exampleDrag exampleWidgets = Some [exampleWidgets ! 1, exampleWidgets ! 0]" .
  from t[THEN conjunct2, THEN conjunct2, THEN spec, THEN mp, OF r]
  have m: "mset [exampleWidgets ! 1, exampleWidgets ! 0] = mset exampleWidgets"
    by (rule conjunct1)
  have n: "handleDragEnd (exampleDrag\<lparr>destination := None\<rparr>) exampleWidgets = Some exampleWidgets"
    using handleDragEnd_reorders[of "exampleDrag\<lparr>destination := None\<rparr>" exampleWidgets]
    by simp
  from pre r m n show ?thesis by simp
qed

section \<open>The initialisation effect and the catalog invariant\<close>

text \<open>Looking a key up in a list whose keys are distinct, as \<open>find\<close> does.\<close>

lemma find_by_key_distinct:
  assumes "distinct (map key cat)" "d \<in> set cat"
  shows "find (\<lambda>w. key w = key d) cat = Some d"
  using assms
proof (induction cat)
  case Nil
  then show ?case by simp
next
  case (Cons a cat)
  show ?case
  proof (cases "a = d")
    case True
    then show ?thesis by simp
  next
    case False
    with Cons.prems have d: "d \<in> set cat" by simp
    with Cons.prems have "key a \<noteq> key d" by auto
    with Cons d show ?thesis by simp
  qed
qed

lemma find_by_key_Some:
  "find (\<lambda>w. key w = k) cat = Some d \<Longrightarrow> d \<in> set cat \<and> key d = k"
  by (induction cat) (auto split: if_splits)

lemma find_by_key_None:
  "find (\<lambda>w. key w = k) cat = None \<longleftrightarrow> k \<notin> key ` set cat"
  by (induction cat) auto

lemma addSaved_unknown:
  "k \<notin> key ` set DEFAULT_WIDGETS \<Longrightarrow> addSaved vis sz k acc = acc"
  by (simp add: addSaved_def find_by_key_None[THEN iffD2])

lemma addSaved_known:
  assumes "d \<in> set DEFAULT_WIDGETS"
  shows "addSaved vis sz (key d) acc =
     acc @ [d\<lparr>visible := key d \<in> set vis, size_w := sizeOr sz (key d) (size_w d)\<rparr>]"
  by (simp add: addSaved_def find_by_key_distinct[OF distinct_keys_DEFAULT_WIDGETS assms])

lemma fold_addSaved_Cons:
  "fold (addSaved vis sz) (k # ks) acc = fold (addSaved vis sz) ks (addSaved vis sz k acc)"
  by (simp only: fold_simps o_apply)

lemma fold_addMissing_Cons:
  "fold (addMissing vis sz) (w # ws) acc = fold (addMissing vis sz) ws (addMissing vis sz w acc)"
  by (simp only: fold_simps o_apply)

lemma keys_addSaved:
  "map key (addSaved vis sz k acc) =
     map key acc @ (if k \<in> key ` set DEFAULT_WIDGETS then [k] else [])"
proof (cases "k \<in> key ` set DEFAULT_WIDGETS")
  case True
  then obtain d where d: "d \<in> set DEFAULT_WIDGETS" "key d = k" by auto
  from addSaved_known[OF d(1), of vis sz acc] d(2) True show ?thesis by simp
next
  case False
  then show ?thesis by (simp add: addSaved_unknown)
qed

lemma idents_addSaved:
  "set (map ident (addSaved vis sz k acc)) =
     set (map ident acc) \<union> ident ` {d \<in> set DEFAULT_WIDGETS. key d = k}"
proof (cases "k \<in> key ` set DEFAULT_WIDGETS")
  case True
  then obtain d where d: "d \<in> set DEFAULT_WIDGETS" "key d = k" by auto
  have uniq: "{e \<in> set DEFAULT_WIDGETS. key e = k} = {d}"
  proof -
    have "e = d" if "e \<in> set DEFAULT_WIDGETS" "key e = k" for e
    proof -
      from find_by_key_distinct[OF distinct_keys_DEFAULT_WIDGETS that(1)]
           find_by_key_distinct[OF distinct_keys_DEFAULT_WIDGETS d(1)] that(2) d(2)
      show ?thesis by simp
    qed
    with d show ?thesis by blast
  qed
  have "ident (d\<lparr>visible := key d \<in> set vis, size_w := sizeOr sz (key d) (size_w d)\<rparr>) = ident d"
    by (simp add: ident_def)
  with addSaved_known[OF d(1), of vis sz acc] d(2) show ?thesis
    unfolding uniq by auto
next
  case False
  then have e: "{d \<in> set DEFAULT_WIDGETS. key d = k} = {}" by auto
  show ?thesis
    unfolding e addSaved_unknown[OF False] by simp
qed

lemma keys_fold_addSaved:
  "map key (fold (addSaved vis sz) ks acc) =
     map key acc @ filter (\<lambda>k. k \<in> key ` set DEFAULT_WIDGETS) ks"
proof (induction ks arbitrary: acc)
  case Nil
  show ?case by simp
next
  case (Cons k ks)
  show ?case
    unfolding fold_addSaved_Cons Cons.IH keys_addSaved by simp
qed

lemma idents_fold_addSaved:
  "set (map ident (fold (addSaved vis sz) ks acc)) =
     set (map ident acc) \<union> ident ` {d \<in> set DEFAULT_WIDGETS. key d \<in> set ks}"
proof (induction ks arbitrary: acc)
  case Nil
  show ?case by simp
next
  case (Cons k ks)
  show ?case
    unfolding fold_addSaved_Cons Cons.IH idents_addSaved by auto
qed

lemma addMissing_present:
  "key w \<in> key ` set acc \<Longrightarrow> addMissing vis sz w acc = acc"
  by (simp add: addMissing_def find_by_key_None)

lemma addMissing_absent:
  "key w \<notin> key ` set acc \<Longrightarrow> addMissing vis sz w acc =
     acc @ [w\<lparr>visible := key w \<in> set vis, size_w := sizeOr sz (key w) (size_w w)\<rparr>]"
  by (simp add: addMissing_def find_by_key_None[THEN iffD2])

lemma keys_addMissing:
  "map key (addMissing vis sz w acc) =
     map key acc @ (if key w \<in> key ` set acc then [] else [key w])"
  by (simp add: addMissing_present addMissing_absent)

lemma idents_addMissing:
  "set (map ident (addMissing vis sz w acc)) =
     set (map ident acc) \<union> (if key w \<in> key ` set acc then {} else {ident w})"
  by (simp add: addMissing_present addMissing_absent ident_def)

lemma keys_fold_addMissing:
  "distinct (map key ws) \<Longrightarrow>
   map key (fold (addMissing vis sz) ws acc) =
     map key acc @ filter (\<lambda>k. k \<notin> key ` set acc) (map key ws)"
proof (induction ws arbitrary: acc)
  case Nil
  show ?case by simp
next
  case (Cons w ws)
  from Cons.prems have d: "distinct (map key ws)" and n: "key w \<notin> key ` set ws"
    by auto
  have same: "filter (\<lambda>k. k \<notin> key ` set (addMissing vis sz w acc)) (map key ws)
      = filter (\<lambda>k. k \<notin> key ` set acc) (map key ws)"
  proof (rule filter_cong[OF refl])
    fix k assume "k \<in> set (map key ws)"
    with n have "k \<noteq> key w" by (auto simp: image_iff)
    moreover have "key ` set (addMissing vis sz w acc) \<subseteq> insert (key w) (key ` set acc)"
      "key ` set acc \<subseteq> key ` set (addMissing vis sz w acc)"
      using keys_addMissing[of vis sz w acc, THEN arg_cong, of set] by (auto split: if_splits)
    ultimately show "(k \<notin> key ` set (addMissing vis sz w acc)) = (k \<notin> key ` set acc)"
      by blast
  qed
  show ?case
    unfolding fold_addMissing_Cons Cons.IH[OF d] same keys_addMissing by simp
qed

lemma keyset_addMissing:
  "key ` set (addMissing vis sz w acc) =
     key ` set acc \<union> (if key w \<in> key ` set acc then {} else {key w})"
  using keys_addMissing[of vis sz w acc, THEN arg_cong, of set] by simp

lemma idents_fold_addMissing:
  "distinct (map key ws) \<Longrightarrow>
   set (map ident (fold (addMissing vis sz) ws acc)) =
     set (map ident acc) \<union> ident ` {w \<in> set ws. key w \<notin> key ` set acc}"
proof (induction ws arbitrary: acc)
  case Nil
  show ?case by simp
next
  case (Cons w ws)
  from Cons.prems have d: "distinct (map key ws)" and n: "key w \<notin> key ` set ws"
    by auto
  have same: "{v \<in> set ws. key v \<notin> key ` set (addMissing vis sz w acc)}
      = {v \<in> set ws. key v \<notin> key ` set acc}"
  proof -
    have "key v \<noteq> key w" if "v \<in> set ws" for v
      using that n by (auto simp: image_iff)
    then show ?thesis
      unfolding keyset_addMissing by auto
  qed
  show ?case
    unfolding fold_addMissing_Cons Cons.IH[OF d] same idents_addMissing by auto
qed

lemma initWidgets_keys:
  "map key (initWidgets vis wo sz) =
     filter (\<lambda>k. k \<in> key ` set DEFAULT_WIDGETS) wo
     @ filter (\<lambda>k. k \<notin> set wo) (map key DEFAULT_WIDGETS)"
proof -
  let ?acc = "fold (addSaved vis sz) wo []"
  have acc: "map key ?acc = filter (\<lambda>k. k \<in> key ` set DEFAULT_WIDGETS) wo"
    by (simp add: keys_fold_addSaved)
  have keyset: "key ` set ?acc = set (filter (\<lambda>k. k \<in> key ` set DEFAULT_WIDGETS) wo)"
    using acc[THEN arg_cong, of set] by simp
  have "filter (\<lambda>k. k \<notin> key ` set ?acc) (map key DEFAULT_WIDGETS)
      = filter (\<lambda>k. k \<notin> set wo) (map key DEFAULT_WIDGETS)"
    unfolding keyset by (rule filter_cong[OF refl]) auto
  then show ?thesis
    unfolding initWidgets_def
    by (simp only: keys_fold_addMissing[OF distinct_keys_DEFAULT_WIDGETS] acc)
qed

lemma initWidgets_idents:
  "set (map ident (initWidgets vis wo sz)) = set (map ident DEFAULT_WIDGETS)"
proof -
  let ?acc = "fold (addSaved vis sz) wo []"
  have keyset: "key ` set ?acc = set (filter (\<lambda>k. k \<in> key ` set DEFAULT_WIDGETS) wo)"
    using keys_fold_addSaved[of vis sz wo "[]", THEN arg_cong, of set] by simp
  have missing: "{w \<in> set DEFAULT_WIDGETS. key w \<notin> key ` set ?acc}
      = {w \<in> set DEFAULT_WIDGETS. key w \<notin> set wo}"
    unfolding keyset by auto
  have "set (map ident (initWidgets vis wo sz)) =
      ident ` {d \<in> set DEFAULT_WIDGETS. key d \<in> set wo}
      \<union> ident ` {w \<in> set DEFAULT_WIDGETS. key w \<notin> set wo}"
    unfolding initWidgets_def idents_fold_addMissing[OF distinct_keys_DEFAULT_WIDGETS]
      missing idents_fold_addSaved by simp
  also have "\<dots> = set (map ident DEFAULT_WIDGETS)"
    by auto
  finally show ?thesis .
qed

lemma key_of_ident: "map key ws = map fst (map ident ws)"
  by (simp add: ident_def comp_def)

lemma distinct_idents:
  assumes "distinct (map key ws)"
  shows "distinct (map ident ws)"
proof -
  from assms have "distinct (map fst (map ident ws))"
    by (simp only: key_of_ident)
  from this[unfolded distinct_map[of fst "map ident ws"]] show ?thesis
    by (rule conjunct1)
qed

lemma catalogExactlyOnce_iff:
  "catalogExactlyOnce ws \<longleftrightarrow>
     distinct (map key ws) \<and> set (map ident ws) = set (map ident DEFAULT_WIDGETS)"
proof
  assume "catalogExactlyOnce ws"
  then have m: "mset (map ident ws) = mset (map ident DEFAULT_WIDGETS)"
    and d: "distinct (map key ws)"
    by (simp_all add: catalogExactlyOnce_def)
  from m have "set (map ident ws) = set (map ident DEFAULT_WIDGETS)"
    by (rule mset_eq_setD)
  with d show "distinct (map key ws) \<and> set (map ident ws) = set (map ident DEFAULT_WIDGETS)"
    by simp
next
  assume h: "distinct (map key ws) \<and> set (map ident ws) = set (map ident DEFAULT_WIDGETS)"
  then have d: "distinct (map key ws)"
    and e: "set (map ident ws) = set (map ident DEFAULT_WIDGETS)"
    by (rule conjunct1, rule conjunct2)
  have d1: "distinct (map ident ws)"
    using d by (rule distinct_idents)
  have d2: "distinct (map ident DEFAULT_WIDGETS)"
    by (rule distinct_idents[OF distinct_keys_DEFAULT_WIDGETS])
  have "mset (map ident ws) = mset (map ident DEFAULT_WIDGETS)"
    using e by (rule set_eq_iff_mset_eq_distinct[OF d1 d2, THEN iffD1])
  with d show "catalogExactlyOnce ws"
    unfolding catalogExactlyOnce_def by (rule conjI[rotated])
qed

lemma catalogExactlyOnce_keys:
  "catalogExactlyOnce ws \<Longrightarrow> mset (map key ws) = mset (map key DEFAULT_WIDGETS)"
proof -
  assume "catalogExactlyOnce ws"
  then have "mset (map ident ws) = mset (map ident DEFAULT_WIDGETS)"
    by (simp add: catalogExactlyOnce_def)
  then have "image_mset fst (mset (map ident ws)) = image_mset fst (mset (map ident DEFAULT_WIDGETS))"
    by (rule arg_cong)
  then show ?thesis
    by (simp only: key_of_ident mset_map)
qed

lemma toggleWidget_ident: "map ident (toggleWidget k ws) = map ident ws"
  by (simp add: toggleWidget_def ident_def)

lemma toggleWidget_keys: "map key (toggleWidget k ws) = map key ws"
  by (simp add: toggleWidget_def)

lemma changeSize_ident: "map ident (changeSize k s ws) = map ident ws"
  by (simp add: changeSize_def ident_def)

lemma changeSize_keys: "map key (changeSize k s ws) = map key ws"
  by (simp add: changeSize_def)

lemma handleReset_ident: "map ident (handleReset ws) = map ident DEFAULT_WIDGETS"
  by (simp add: handleReset_def ident_def)

lemma handleReset_keys: "map key (handleReset ws) = map key DEFAULT_WIDGETS"
  by (simp add: handleReset_def comp_def)

lemma catalogExactlyOnce_mset:
  assumes "mset ws' = mset ws" "catalogExactlyOnce ws"
  shows "catalogExactlyOnce ws'"
proof -
  from assms(1) have i: "mset (map ident ws') = mset (map ident ws)"
    and k: "mset (map key ws') = mset (map key ws)"
    by simp_all
  from k have "distinct (map key ws') = distinct (map key ws)"
    by (rule mset_eq_imp_distinct_iff)
  with i assms(2) show ?thesis
    by (simp add: catalogExactlyOnce_def)
qed

text \<open>
  Claim C4, amended. The initialisation effect yields the catalog keys of
  \<open>widgetOrder\<close> in their order (keys outside the catalog dropped, repetitions kept)
  followed by the catalog keys missing from \<open>widgetOrder\<close>, so its key set is the
  catalog's; when no catalog key is repeated in \<open>widgetOrder\<close> the list holds exactly
  the catalog's widgets, each key once. \<open>toggleWidget\<close> and \<open>changeSize\<close> keep the
  key list, a drag that removes a widget permutes it, \<open>handleReset\<close> installs the
  catalog, and all of them preserve "exactly the catalog, each key once".
\<close>

theorem dialog_widgets_invariant:
  "map key (initWidgets vis wo sz) =
     filter (\<lambda>k. k \<in> key ` set DEFAULT_WIDGETS) wo
     @ filter (\<lambda>k. k \<notin> set wo) (map key DEFAULT_WIDGETS)
   \<and> set (map key (initWidgets vis wo sz)) = set (map key DEFAULT_WIDGETS)
   \<and> (distinct (filter (\<lambda>k. k \<in> key ` set DEFAULT_WIDGETS) wo) \<longrightarrow>
        catalogExactlyOnce (initWidgets vis wo sz))
   \<and> map key (toggleWidget k ws) = map key ws
   \<and> map key (changeSize k s ws) = map key ws
   \<and> (\<forall>ws'. handleDragEnd r ws = Some ws' \<longrightarrow> mset (map key ws') = mset (map key ws))
   \<and> (catalogExactlyOnce ws \<longrightarrow>
        catalogExactlyOnce (toggleWidget k ws)
        \<and> catalogExactlyOnce (changeSize k s ws)
        \<and> (\<forall>ws'. handleDragEnd r ws = Some ws' \<longrightarrow> catalogExactlyOnce ws')
        \<and> mset (map key ws) = mset (map key DEFAULT_WIDGETS))
   \<and> catalogExactlyOnce (handleReset ws)"
proof (intro conjI allI impI)
  show "map key (initWidgets vis wo sz) =
     filter (\<lambda>k. k \<in> key ` set DEFAULT_WIDGETS) wo
     @ filter (\<lambda>k. k \<notin> set wo) (map key DEFAULT_WIDGETS)"
    by (rule initWidgets_keys)
  show "set (map key (initWidgets vis wo sz)) = set (map key DEFAULT_WIDGETS)"
    unfolding initWidgets_keys by auto
  show "catalogExactlyOnce (initWidgets vis wo sz)"
    if "distinct (filter (\<lambda>k. k \<in> key ` set DEFAULT_WIDGETS) wo)"
  proof -
    have "distinct (filter (\<lambda>k. k \<notin> set wo) (map key DEFAULT_WIDGETS))"
      using distinct_keys_DEFAULT_WIDGETS by (rule distinct_filter)
    with that have "distinct (map key (initWidgets vis wo sz))"
      unfolding initWidgets_keys by auto
    from this initWidgets_idents[of vis wo sz] show ?thesis
      unfolding catalogExactlyOnce_iff by (rule conjI)
  qed
  show "map key (toggleWidget k ws) = map key ws" by (rule toggleWidget_keys)
  show "map key (changeSize k s ws) = map key ws" by (rule changeSize_keys)
  show "mset (map key ws') = mset (map key ws)" if "handleDragEnd r ws = Some ws'" for ws'
    using handleDragEnd_mset[OF that] by simp
  show "catalogExactlyOnce (toggleWidget k ws)" if "catalogExactlyOnce ws"
    using that by (simp add: catalogExactlyOnce_def toggleWidget_ident toggleWidget_keys)
  show "catalogExactlyOnce (changeSize k s ws)" if "catalogExactlyOnce ws"
    using that by (simp add: catalogExactlyOnce_def changeSize_ident changeSize_keys)
  show "catalogExactlyOnce ws'" if "catalogExactlyOnce ws" "handleDragEnd r ws = Some ws'" for ws'
    using handleDragEnd_mset[OF that(2)] that(1) by (rule catalogExactlyOnce_mset)
  show "mset (map key ws) = mset (map key DEFAULT_WIDGETS)" if "catalogExactlyOnce ws"
    using that by (rule catalogExactlyOnce_keys)
  show "catalogExactlyOnce (handleReset ws)"
    by (simp add: catalogExactlyOnce_def handleReset_ident handleReset_keys
        distinct_keys_DEFAULT_WIDGETS)
qed

text \<open>
  Claim C4 as stated fails: a key repeated in \<open>widgetOrder\<close> is pushed twice by the
  first loop.
\<close>

theorem initWidgets_duplicate_counterexample:
  "\<not> catalogExactlyOnce (initWidgets [] [js ''leads'', js ''leads''] Map.empty)"
proof -
  have "js ''leads'' \<in> key ` set DEFAULT_WIDGETS"
    using keys_DEFAULT_WIDGETS[THEN arg_cong, of set] by simp
  then have "\<not> distinct (map key (initWidgets [] [js ''leads'', js ''leads''] Map.empty))"
    unfolding initWidgets_keys by simp
  then show ?thesis
    by (simp add: catalogExactlyOnce_def)
qed

theorem dialog_widgets_invariant_witness:
  "distinct (filter (\<lambda>k. k \<in> key ` set DEFAULT_WIDGETS) [js ''deals'', js ''bogus'', js ''leads''])
   \<and> catalogExactlyOnce (initWidgets [js ''leads''] [js ''deals'', js ''bogus'', js ''leads''] Map.empty)
   \<and> catalogExactlyOnce (toggleWidget (js ''deals'')
        (initWidgets [js ''leads''] [js ''deals'', js ''bogus'', js ''leads''] Map.empty))
   \<and> take 3 (map key (initWidgets [js ''leads''] [js ''deals'', js ''bogus'', js ''leads''] Map.empty))
       = [js ''deals'', js ''leads'', js ''contacts'']"
proof -
  let ?wo = "[js ''deals'', js ''bogus'', js ''leads'']"
  let ?ws = "initWidgets [js ''leads''] ?wo Map.empty"
  have ks: "key ` set DEFAULT_WIDGETS = set (map key DEFAULT_WIDGETS)" by simp
  have f: "filter (\<lambda>k. k \<in> key ` set DEFAULT_WIDGETS) ?wo = [js ''deals'', js ''leads'']"
    unfolding ks keys_DEFAULT_WIDGETS by simp
  have d: "distinct (filter (\<lambda>k. k \<in> key ` set DEFAULT_WIDGETS) ?wo)"
    unfolding f by simp
  note t = dialog_widgets_invariant[of "[js ''leads'']" ?wo Map.empty "js ''deals''" ?ws]
  from t d have c: "catalogExactlyOnce ?ws" by blast
  with t have c': "catalogExactlyOnce (toggleWidget (js ''deals'') ?ws)" by blast
  from t have "map key ?ws = filter (\<lambda>k. k \<in> key ` set DEFAULT_WIDGETS) ?wo
     @ filter (\<lambda>k. k \<notin> set ?wo) (map key DEFAULT_WIDGETS)"
    by (rule conjunct1)
  then have k: "take 3 (map key ?ws) = [js ''deals'', js ''leads'', js ''contacts'']"
    unfolding f keys_DEFAULT_WIDGETS by simp
  show ?thesis
    by (intro conjI) (rule d c c' k)+
qed

section \<open>Status badges, realtime inserts and fetching\<close>

lemma isRecentlySent_iff:
  "isRecentlySent now v \<longleftrightarrow> (\<exists>t. v = Some t \<and> now - t < 60000)"
  by (cases v) (simp_all add: isRecentlySent_def)

lemma truthyString_iff: "truthyString v \<longleftrightarrow> v \<noteq> None \<and> v \<noteq> Some []"
  by (cases v) (simp_all add: truthyString_def)

lemma reply_positive_iff:
  "truthyNumber v \<and> numberGreater v 0 \<longleftrightarrow> (\<exists>n. v = Some n \<and> n > 0)"
  by (cases v) (auto simp: truthyNumber_def numberGreater_def)

lemma getBounceExplanation_empty:
  "getBounceExplanation (Some []) r = getBounceExplanation None r"
  by (simp add: getBounceExplanation_def)

lemma status_emptyBounceTypeAsNull [simp]:
  "status (emptyBounceTypeAsNull e) = status e"
  "sent_at (emptyBounceTypeAsNull e) = sent_at e"
  "reply_count (emptyBounceTypeAsNull e) = reply_count e"
  "is_valid_open (emptyBounceTypeAsNull e) = is_valid_open e"
  "bounce_type (emptyBounceTypeAsNull e) = (if bounce_type e = Some [] then None else bounce_type e)"
  by (simp_all add: emptyBounceTypeAsNull_def)

lemma getStatusBadge_as_described:
  "getStatusBadge parseDate now email =
     describedStatusBadge parseDate now (emptyBounceTypeAsNull email)"
proof -
  let ?e = "emptyBounceTypeAsNull email"
  have present: "truthyString (bounce_type email) = (bounce_type ?e \<noteq> None)"
    by (simp add: truthyString_iff)
  have explanation:
    "getBounceExplanation (bounce_type email) None = getBounceExplanation (bounce_type ?e) None"
    by (simp add: getBounceExplanation_empty)
  have "getStatusBadge parseDate now email =
     (if status ?e = js ''sent''
         \<and> (\<exists>t. parseDate (sent_at ?e) = Some t \<and> now - t < 60000)
         \<and> bounce_type ?e = None
      then Verifying
      else if status ?e = js ''bounced'' \<or> bounce_type ?e \<noteq> None
      then BounceBadge (title (getBounceExplanation (bounce_type ?e) None))
      else if status ?e = js ''replied'' \<or> (\<exists>n. reply_count ?e = Some n \<and> n > 0)
      then Replied (repliedSuffix (reply_count ?e))
      else if status ?e = js ''opened''
      then (if is_valid_open ?e = Some False then Suspicious else Opened)
      else if status ?e = js ''delivered'' then Delivered
      else Sent)"
    unfolding getStatusBadge_def isRecentlySent_iff reply_positive_iff present explanation
    by (simp only: status_emptyBounceTypeAsNull(1-4) not_not)
  then show ?thesis
    by (simp only: describedStatusBadge_def)
qed

text \<open>
  Claim C6, amended. \<open>getStatusBadge\<close> selects one badge by the stated precedence,
  where "\<open>bounce_type\<close> is null" reads "null or the empty string" and "non-null" reads
  "a non-empty string": "Verifying..." when status is \<open>'sent'\<close>, the email was sent less
  than 60 seconds before now and \<open>bounce_type\<close> is absent; otherwise the bounce badge with
  the title of \<open>getBounceExplanation\<close> when status is \<open>'bounced'\<close> or \<open>bounce_type\<close>
  is present; otherwise "Replied" when status is \<open>'replied'\<close> or \<open>reply_count\<close> is
  positive; otherwise for status \<open>'opened'\<close> "Suspicious" if \<open>is_valid_open\<close> is
  false and "Opened" if not; otherwise "Delivered" for status \<open>'delivered'\<close>; otherwise
  "Sent". For every email whose \<open>bounce_type\<close> is not the empty string this is the
  selection as described.
\<close>

theorem getStatusBadge_precedence:
  "getStatusBadge parseDate now email =
     describedStatusBadge parseDate now (emptyBounceTypeAsNull email)
   \<and> (bounce_type email \<noteq> Some [] \<longrightarrow>
        getStatusBadge parseDate now email = describedStatusBadge parseDate now email)"
proof (intro conjI impI)
  show "getStatusBadge parseDate now email =
     describedStatusBadge parseDate now (emptyBounceTypeAsNull email)"
    by (rule getStatusBadge_as_described)
  assume "bounce_type email \<noteq> Some []"
  then have "emptyBounceTypeAsNull email = email"
    by (simp add: emptyBounceTypeAsNull_def)
  then show "getStatusBadge parseDate now email = describedStatusBadge parseDate now email"
    using getStatusBadge_as_described[of parseDate now email] by simp
qed

text \<open>
  Claim C6 as stated fails for an empty \<open>bounce_type\<close>: it is not null, yet the
  source's truthiness test treats it as absent and shows "Verifying...".
\<close>

theorem getStatusBadge_empty_bounce_type_counterexample:
  "getStatusBadge exampleParseDate exampleNow exampleEmail = Verifying
   \<and> describedStatusBadge exampleParseDate exampleNow exampleEmail
       = BounceBadge (js ''Delivery Failed'')"
  by (simp add: getStatusBadge_def describedStatusBadge_def exampleEmail_def exampleParseDate_def
      exampleNow_def isRecentlySent_def truthyString_def getBounceExplanation_def genericBounce_def)

theorem getStatusBadge_precedence_witness:
  "bounce_type (exampleEmail\<lparr>status := js ''delivered'', bounce_type := None\<rparr>) \<noteq> Some []
   \<and> getStatusBadge exampleParseDate exampleNow
        (exampleEmail\<lparr>status := js ''delivered'', bounce_type := None\<rparr>) = Replied (Some 2)
   \<and> describedStatusBadge exampleParseDate exampleNow
        (exampleEmail\<lparr>status := js ''delivered'', bounce_type := None\<rparr>) = Replied (Some 2)"
proof -
  let ?e = "exampleEmail\<lparr>status := js ''delivered'', bounce_type := None\<rparr>"
  have p: "bounce_type ?e \<noteq> Some []" by simp
  have d: "describedStatusBadge exampleParseDate exampleNow ?e = Replied (Some 2)"
    by (simp add: describedStatusBadge_def exampleEmail_def repliedSuffix_def truthyNumber_def
        numberGreater_def)
  from getStatusBadge_precedence[of exampleParseDate exampleNow ?e, THEN conjunct2, THEN mp, OF p]
  have g: "getStatusBadge exampleParseDate exampleNow ?e = Replied (Some 2)"
    unfolding d .
  show ?thesis
    by (intro conjI) (rule p g d)+
qed

lemma belongsToEntity_iff:
  "belongsToEntity entityType entityId newEmail \<longleftrightarrow>
     entityIdField entityType newEmail = Some entityId"
  by (cases entityType) (simp_all add: belongsToEntity_def)

text \<open>
  Claim C7. An INSERT event prepends its row to the list if and only if the row's id
  field for the viewed entity type (\<open>lead_id\<close>, \<open>contact_id\<close>, \<open>account_id\<close>) equals
  the viewed entity id; any other row leaves the list as it is.
\<close>

theorem onInsert_belongs:
  "(onInsert entityType entityId newEmail prev = newEmail # prev
      \<longleftrightarrow> entityIdField entityType newEmail = Some entityId)
   \<and> (entityIdField entityType newEmail \<noteq> Some entityId
      \<longrightarrow> onInsert entityType entityId newEmail prev = prev)"
  by (simp add: onInsert_def belongsToEntity_iff)

theorem onInsert_belongs_witness:
  "entityIdField Contact exampleEmail \<noteq> Some (js ''L1'')
   \<and> onInsert Contact (js ''L1'') exampleEmail [] = []
   \<and> entityIdField Lead exampleEmail = Some (js ''L1'')
   \<and> onInsert Lead (js ''L1'') exampleEmail [] = [exampleEmail]"
proof -
  have n: "entityIdField Contact exampleEmail \<noteq> Some (js ''L1'')"
    and y: "entityIdField Lead exampleEmail = Some (js ''L1'')"
    by (simp_all add: exampleEmail_def)
  from onInsert_belongs[of Contact "js ''L1''" exampleEmail "[]", THEN conjunct2, THEN mp, OF n]
  have a: "onInsert Contact (js ''L1'') exampleEmail [] = []" .
  from onInsert_belongs[of Lead "js ''L1''" exampleEmail "[]", THEN conjunct1, THEN iffD2, OF y]
  have b: "onInsert Lead (js ''L1'') exampleEmail [] = [exampleEmail]" .
  show ?thesis
    by (intro conjI) (rule n a y b)+
qed

text \<open>
  Claim C10. When the query fails (it rejects, or resolves with an error)
  \<open>fetchEmails\<close> leaves \<open>emails\<close> as it was; on success \<open>emails\<close> becomes the data,
  a null result the empty list; in every case \<open>loading\<close> is false at the end.
\<close>

theorem fetchEmails_outcomes:
  "emails (fetchEmails (Rejected e) s) = emails s
   \<and> emails (fetchEmails (Resolved d (Some e)) s) = emails s
   \<and> emails (fetchEmails (Resolved (Some rows) None) s) = rows
   \<and> emails (fetchEmails (Resolved None None) s) = []
   \<and> loading (fetchEmails q s) = False"
  by (simp add: fetchEmails_def tryBlock_def Let_def split: QueryOutcome.split option.split sum.split)

section \<open>Cleaning a bounce reason\<close>

subsection \<open>Character classes\<close>

lemma whiteSpaceCodePoint_eq: "whiteSpaceCodePoint c = isWhiteSpace c"
  by (auto simp: whiteSpaceCodePoint_def isWhiteSpace_def)

lemma decimalDigit_eq: "decimalDigit c = isDigit c"
  by (simp add: decimalDigit_def isDigit_def)

lemma sameIgnoringCase_iff: "sameIgnoringCase a b \<longleftrightarrow> canonicalize a = canonicalize b"
  unfolding sameIgnoringCase_def asciiUpper_def canonicalize_def
  by (simp split: if_splits) arith

lemma space_is_white: "isWhiteSpace (of_char CHR '' '')"
  by (simp add: isWhiteSpace_def)

lemma lineTerminator_is_white: "isLineTerminator c \<Longrightarrow> isWhiteSpace c"
  by (auto simp: isLineTerminator_def isWhiteSpace_def)

lemma space_no_lineTerminator: "\<not> isLineTerminator (of_char CHR '' '')"
  by (simp add: isLineTerminator_def)

lemma digit_not_white: "isDigit c \<Longrightarrow> \<not> isWhiteSpace c"
  by (auto simp: isDigit_def isWhiteSpace_def)

lemma dot_not_digit: "\<not> isDigit (of_char CHR ''.'')"
  by (simp add: isDigit_def)

subsection \<open>Stripping tags\<close>

lemma dropTags_inside:
  "of_char CHR ''>'' \<in> set cs \<Longrightarrow>
   dropTags True cs =
     of_char CHR '' '' # dropTags False (tl (dropWhile (\<lambda>x. x \<noteq> of_char CHR ''>'') cs))"
  by (induction cs) auto

lemma stripTags_dropTags: "stripTags s = dropTags False s"
proof (induction s rule: stripTags.induct)
  case 1
  show ?case by simp
next
  case (2 c cs)
  show ?case
  proof (cases "c = of_char CHR ''<'' \<and> of_char CHR ''>'' \<in> set cs")
    case True
    with "2.IH"(1) show ?thesis
      by (simp add: dropTags_inside)
  next
    case False
    with "2.IH"(2) show ?thesis
      by auto
  qed
qed

subsection \<open>Collapsing white space\<close>

lemma squeeze_dropWhile: "squeeze (dropWhile isWhiteSpace s) = squeeze s"
  by (induction s) (simp_all add: whiteSpaceCodePoint_eq)

lemma squeeze_Nil_iff: "squeeze s = [] \<longleftrightarrow> (\<forall>c \<in> set s. isWhiteSpace c)"
  by (induction s) (auto simp: whiteSpaceCodePoint_eq)

lemma squeeze_ends:
  "squeeze s \<noteq> [] \<Longrightarrow> \<not> isWhiteSpace (hd (squeeze s)) \<and> \<not> isWhiteSpace (last (squeeze s))"
  by (induction s) (auto simp: whiteSpaceCodePoint_eq)

lemma collapse_squeeze: "collapseWhitespace s = leadOf s @ squeeze s @ trailOf s"
proof (induction s rule: collapseWhitespace.induct)
  case 1
  show ?case by (simp add: leadOf_def trailOf_def)
next
  case (2 c cs)
  show ?case
  proof (cases "isWhiteSpace c")
    case True
    let ?d = "dropWhile isWhiteSpace cs"
    have ih: "collapseWhitespace ?d = leadOf ?d @ squeeze ?d @ trailOf ?d"
      using True by (rule "2.IH"(1))
    have lead: "leadOf ?d = []"
      using hd_dropWhile[of isWhiteSpace cs] by (auto simp: leadOf_def)
    have sq: "squeeze ?d = squeeze cs"
      by (rule squeeze_dropWhile)
    have trail: "trailOf ?d = trailOf (c # cs)"
    proof (cases "squeeze cs = []")
      case True
      then show ?thesis using \<open>isWhiteSpace c\<close>
        by (simp add: trailOf_def sq whiteSpaceCodePoint_eq)
    next
      case False
      then have "squeeze ?d \<noteq> []" using sq by simp
      then have d: "?d \<noteq> []" by (metis squeeze.simps(1))
      have "cs = takeWhile isWhiteSpace cs @ ?d" by simp
      then have "last cs = last (takeWhile isWhiteSpace cs @ ?d)" by simp
      also have "\<dots> = last ?d" using d by (rule last_appendR)
      finally have l: "last ?d = last cs" by simp
      from d have "cs \<noteq> []" by auto
      then show ?thesis using \<open>isWhiteSpace c\<close>
        by (simp add: trailOf_def sq l whiteSpaceCodePoint_eq)
    qed
    have "collapseWhitespace (c # cs) = of_char CHR '' '' # collapseWhitespace ?d"
      using True by simp
    also have "\<dots> = of_char CHR '' '' # squeeze cs @ trailOf (c # cs)"
      by (simp only: ih lead sq trail append_Nil)
    finally have lhs: "collapseWhitespace (c # cs) = of_char CHR '' '' # squeeze cs @ trailOf (c # cs)" .
    have l: "leadOf (c # cs) = [of_char CHR '' '']"
      using True by (simp add: leadOf_def)
    have q: "squeeze (c # cs) = squeeze cs"
      using True by (simp add: whiteSpaceCodePoint_eq)
    show ?thesis
      by (simp only: lhs l q append_Cons append_Nil)
  next
    case False
    have ih: "collapseWhitespace cs = leadOf cs @ squeeze cs @ trailOf cs"
      using False by (rule "2.IH"(2))
    show ?thesis
    proof (cases "cs = []")
      case True
      with False show ?thesis
        by (simp add: leadOf_def trailOf_def whiteSpaceCodePoint_eq)
    next
      case nonempty: False
      show ?thesis
      proof (cases "isWhiteSpace (hd cs)")
        case True
        show ?thesis
        proof (cases "squeeze cs = []")
          case True
          then have "isWhiteSpace (last cs)"
            using nonempty by (simp add: squeeze_Nil_iff)
          with True False nonempty \<open>isWhiteSpace (hd cs)\<close> show ?thesis
            by (simp add: ih leadOf_def trailOf_def whiteSpaceCodePoint_eq)
        next
          case sq: False
          with False nonempty \<open>isWhiteSpace (hd cs)\<close> show ?thesis
            by (simp add: ih leadOf_def trailOf_def whiteSpaceCodePoint_eq)
        qed
      next
        case nw: False
        then have "squeeze cs \<noteq> []"
          using nonempty by (auto simp: squeeze_Nil_iff)
        with False nonempty nw show ?thesis
          by (simp add: ih leadOf_def trailOf_def whiteSpaceCodePoint_eq)
      qed
    qed
  qed
qed

lemma dropWhile_keeps:
  "m \<noteq> [] \<Longrightarrow> \<not> P (hd m) \<Longrightarrow> dropWhile P (m @ t) = m @ t"
  by (cases m) simp_all

lemma trim_core:
  assumes "m \<noteq> []" "\<not> isWhiteSpace (hd m)" "\<not> isWhiteSpace (last m)"
    and "\<forall>c \<in> set l. isWhiteSpace c" "\<forall>c \<in> set t. isWhiteSpace c"
  shows "trim (l @ m @ t) = m"
proof -
  have "dropWhile isWhiteSpace (l @ m @ t) = dropWhile isWhiteSpace (m @ t)"
    using assms(4) by (intro dropWhile_append2) auto
  also have "\<dots> = m @ t"
    using assms(1,2) by (rule dropWhile_keeps)
  finally have front: "dropWhile isWhiteSpace (l @ m @ t) = m @ t" .
  have rm: "rev m \<noteq> []" "\<not> isWhiteSpace (hd (rev m))"
    using assms(1,3) by (simp_all add: hd_rev)
  have "dropWhile isWhiteSpace (rev (m @ t)) = dropWhile isWhiteSpace (rev t @ rev m)"
    by simp
  also have "\<dots> = dropWhile isWhiteSpace (rev m)"
    using assms(5) by (intro dropWhile_append2) auto
  also have "\<dots> = rev m"
    using dropWhile_keeps[where P = isWhiteSpace and m = "rev m" and t = "[]"] rm by simp
  finally have rear: "dropWhile isWhiteSpace (rev (m @ t)) = rev m" .
  show ?thesis
    by (simp only: trim_def front rear rev_rev_ident)
qed

lemma trim_all_white:
  assumes "\<forall>c \<in> set s. isWhiteSpace c"
  shows "trim s = []"
proof -
  from assms have e: "dropWhile isWhiteSpace s = []"
    by (simp only: dropWhile_eq_Nil_conv) 
  show ?thesis
    by (simp only: trim_def e rev.simps dropWhile.simps)
qed

lemma trim_collapse: "trim (collapseWhitespace s) = squeeze s"
proof (cases "squeeze s = []")
  case True
  have "\<forall>c \<in> set (leadOf s @ squeeze s @ trailOf s). isWhiteSpace c"
    using True by (simp add: leadOf_def trailOf_def isWhiteSpace_def)
  then show ?thesis
    unfolding collapse_squeeze using True by (simp add: trim_all_white)
next
  case False
  have "\<forall>c \<in> set (leadOf s). isWhiteSpace c" "\<forall>c \<in> set (trailOf s). isWhiteSpace c"
    by (simp_all add: leadOf_def trailOf_def isWhiteSpace_def)
  with False squeeze_ends[OF False] show ?thesis
    unfolding collapse_squeeze by (intro trim_core) auto
qed

lemma cleanText_described: "cleanText r = describedCleanedText r"
  by (simp add: cleanText_def describedCleanedText_def trim_collapse stripTags_dropTags)

subsection \<open>The cleaned text holds no line terminator\<close>

lemma squeeze_members:
  "c \<in> set (squeeze s) \<Longrightarrow> c = of_char CHR '' '' \<or> \<not> isWhiteSpace c"
  by (induction s) (auto simp: whiteSpaceCodePoint_eq split: if_splits)

lemma cleaned_no_lineTerminator:
  "c \<in> set (describedCleanedText r) \<Longrightarrow> \<not> isLineTerminator c"
  unfolding describedCleanedText_def
  using squeeze_members lineTerminator_is_white space_no_lineTerminator by blast

subsection \<open>Phrases\<close>

lemma list_all2_same_image:
  "list_all2 (\<lambda>a b. f a = f b) xs ys \<longleftrightarrow> map f ys = map f xs"
proof (induction xs arbitrary: ys)
  case Nil
  show ?case by auto
next
  case (Cons x xs)
  show ?case
    by (cases ys) (auto simp: Cons.IH)
qed

lemma canonical_lists:
  "list_all2 sameIgnoringCase xs ys \<longleftrightarrow> map canonicalize ys = map canonicalize xs"
proof -
  have e: "sameIgnoringCase = (\<lambda>a b. canonicalize a = canonicalize b)"
    by (intro ext) (rule sameIgnoringCase_iff)
  show ?thesis
    unfolding e by (rule list_all2_same_image)
qed

lemma startsWithCI_occursAt: "startsWithCI phrase s \<longleftrightarrow> occursAt phrase 0 s"
  by (simp add: startsWithCI_def occursAt_def canonical_lists)

lemma occursAt_Suc: "occursAt phrase (Suc i) (c # cs) \<longleftrightarrow> occursAt phrase i cs"
  by (simp add: occursAt_def)

lemma occursAt_drop:
  "m \<le> length s \<Longrightarrow> occursAt phrase i (drop m s) \<longleftrightarrow> occursAt phrase (m + i) s"
  by (auto simp: occursAt_def add.commute)

lemma containsCI_positions:
  "containsCI phrase s \<longleftrightarrow> (\<exists>i \<le> length s. occursAt phrase i s)"
proof (induction s)
  case Nil
  show ?case by (simp add: startsWithCI_occursAt)
next
  case (Cons c cs)
  have "(\<exists>i \<le> length (c # cs). occursAt phrase i (c # cs))
      \<longleftrightarrow> occursAt phrase 0 (c # cs) \<or> (\<exists>i \<le> length cs. occursAt phrase (Suc i) (c # cs))"
  proof
    assume "\<exists>i \<le> length (c # cs). occursAt phrase i (c # cs)"
    then obtain i where i: "i \<le> length (c # cs)" "occursAt phrase i (c # cs)" by blast
    show "occursAt phrase 0 (c # cs) \<or> (\<exists>i \<le> length cs. occursAt phrase (Suc i) (c # cs))"
    proof (cases i)
      case 0
      with i show ?thesis by simp
    next
      case (Suc k)
      with i have "k \<le> length cs" "occursAt phrase (Suc k) (c # cs)" by simp_all
      then show ?thesis by blast
    qed
  next
    assume "occursAt phrase 0 (c # cs) \<or> (\<exists>i \<le> length cs. occursAt phrase (Suc i) (c # cs))"
    then show "\<exists>i \<le> length (c # cs). occursAt phrase i (c # cs)"
      by (metis Suc_le_mono le0 length_Cons)
  qed
  then show ?case
    by (simp only: containsCI.simps Cons.IH startsWithCI_occursAt occursAt_Suc)
qed

lemma containsCI_described: "containsCI phrase s \<longleftrightarrow> containsIgnoringCase phrase s"
  by (simp add: containsCI_positions containsIgnoringCase_def Bex_def)

lemma dotStarThen_containsCI:
  "\<forall>c \<in> set s. \<not> isLineTerminator c \<Longrightarrow> dotStarThen phrase s = containsCI phrase s"
  by (induction s) simp_all

lemma containsGapCI_positions:
  "\<forall>c \<in> set s. \<not> isLineTerminator c \<Longrightarrow>
   containsGapCI phrase1 phrase2 s \<longleftrightarrow>
     (\<exists>i \<le> length s. occursAt phrase1 i s \<and> containsCI phrase2 (drop (i + length phrase1) s))"
proof (induction s)
  case Nil
  then show ?case
    by (simp add: startsWithCI_occursAt)
next
  case (Cons c cs)
  from Cons.prems have rest: "\<forall>c \<in> set cs. \<not> isLineTerminator c" by simp
  have tail: "\<forall>x \<in> set (drop (length phrase1) (c # cs)). \<not> isLineTerminator x"
    using Cons.prems by (meson in_set_dropD)
  have here: "startsWithCI phrase1 (c # cs) \<and> dotStarThen phrase2 (drop (length phrase1) (c # cs))
      \<longleftrightarrow> occursAt phrase1 0 (c # cs) \<and> containsCI phrase2 (drop (0 + length phrase1) (c # cs))"
    by (simp only: startsWithCI_occursAt dotStarThen_containsCI[OF tail] add_0)
  have later: "containsGapCI phrase1 phrase2 cs \<longleftrightarrow>
      (\<exists>i \<le> length cs. occursAt phrase1 (Suc i) (c # cs)
         \<and> containsCI phrase2 (drop (Suc i + length phrase1) (c # cs)))"
    by (simp only: Cons.IH[OF rest] occursAt_Suc add_Suc drop_Suc_Cons)
  have split: "(\<exists>i \<le> length (c # cs). P i) \<longleftrightarrow> P 0 \<or> (\<exists>i \<le> length cs. P (Suc i))" for P
  proof
    assume "\<exists>i \<le> length (c # cs). P i"
    then obtain i where i: "i \<le> length (c # cs)" "P i" by blast
    show "P 0 \<or> (\<exists>i \<le> length cs. P (Suc i))"
    proof (cases i)
      case 0
      with i show ?thesis by simp
    next
      case (Suc k)
      with i have "k \<le> length cs" "P (Suc k)" by simp_all
      then show ?thesis by blast
    qed
  next
    assume "P 0 \<or> (\<exists>i \<le> length cs. P (Suc i))"
    then show "\<exists>i \<le> length (c # cs). P i"
      by (metis Suc_le_mono le0 length_Cons)
  qed
  show ?case
    by (simp only: containsGapCI.simps here later split)
qed

lemma containsGapCI_described:
  assumes "\<forall>c \<in> set s. \<not> isLineTerminator c"
  shows "containsGapCI phrase1 phrase2 s \<longleftrightarrow> containsInOrder phrase1 phrase2 s"
proof
  assume "containsGapCI phrase1 phrase2 s"
  then obtain i where i: "i \<le> length s" "occursAt phrase1 i s"
      and c: "containsCI phrase2 (drop (i + length phrase1) s)"
    unfolding containsGapCI_positions[OF assms] by blast
  from i(2) have m: "i + length phrase1 \<le> length s" by (simp add: occursAt_def)
  from c obtain k where "occursAt phrase2 k (drop (i + length phrase1) s)"
    unfolding containsCI_positions by blast
  then have o: "occursAt phrase2 (i + length phrase1 + k) s"
    by (simp only: occursAt_drop[OF m])
  then have "i + length phrase1 + k \<le> length s" by (simp add: occursAt_def)
  with i o show "containsInOrder phrase1 phrase2 s"
    unfolding containsInOrder_def by (intro bexI[of _ i] bexI[of _ "i + length phrase1 + k"]) auto
next
  assume "containsInOrder phrase1 phrase2 s"
  then obtain i j where i: "i \<le> length s" "occursAt phrase1 i s"
      and j: "i + length phrase1 \<le> j" "occursAt phrase2 j s" "j \<le> length s"
    unfolding containsInOrder_def by auto
  from i(2) have m: "i + length phrase1 \<le> length s" by (simp add: occursAt_def)
  from j(1) obtain k where k: "j = i + length phrase1 + k"
    using le_Suc_ex by blast
  with j(2) have "occursAt phrase2 k (drop (i + length phrase1) s)"
    by (simp only: occursAt_drop[OF m])
  moreover from k j(3) have "k \<le> length (drop (i + length phrase1) s)" by simp
  ultimately have "containsCI phrase2 (drop (i + length phrase1) s)"
    unfolding containsCI_positions by blast
  with i show "containsGapCI phrase1 phrase2 s"
    unfolding containsGapCI_positions[OF assms] by blast
qed

lemma patterns_described:
  assumes "\<forall>c \<in> set s. \<not> isLineTerminator c"
  shows "(\<exists>p \<in> set patterns. matchPattern p s) \<longleftrightarrow> knownFailure s"
  by (simp add: patterns_def knownFailure_def failurePhrases_def containsCI_described
      containsGapCI_described[OF assms] disj_ac)

subsection \<open>Runs of a character class and the SMTP status test\<close>

text \<open>Where the run of \<open>P\<close> that starts at position \<open>a\<close> ends.\<close>

lemma run_drop:
  "dropWhile P (drop a s) = drop (a + length (takeWhile P (drop a s))) s"
  by (simp add: dropWhile_eq_drop add.commute)

lemma run_inside:
  assumes "a \<le> length s"
  shows "a + length (takeWhile P (drop a s)) \<le> length s"
proof -
  have "length (takeWhile P (drop a s)) \<le> length (drop a s)"
    by (rule length_takeWhile_le)
  with assms show ?thesis by simp
qed

lemma run_members:
  assumes "a \<le> length s" "a \<le> k" "k < a + length (takeWhile P (drop a s))"
  shows "P (s ! k)"
proof -
  let ?xs = "drop a s"
  from assms(2,3) have j: "k - a < length (takeWhile P ?xs)" by simp
  then have "takeWhile P ?xs ! (k - a) \<in> set (takeWhile P ?xs)"
    by (rule nth_mem)
  then have "P (takeWhile P ?xs ! (k - a))"
    by (blast dest: set_takeWhileD)
  moreover have "takeWhile P ?xs ! (k - a) = ?xs ! (k - a)"
    using j by (rule takeWhile_nth)
  moreover have "?xs ! (k - a) = s ! k"
    using assms(1,2) by simp
  ultimately show ?thesis by simp
qed

lemma run_stops:
  assumes "a + length (takeWhile P (drop a s)) < length s"
  shows "\<not> P (s ! (a + length (takeWhile P (drop a s))))"
proof -
  let ?xs = "drop a s"
  from assms have "length (takeWhile P ?xs) < length ?xs" by simp
  then have "\<not> P (?xs ! length (takeWhile P ?xs))"
    by (rule nth_length_takeWhile)
  moreover from assms have "a \<le> length s" by simp
  ultimately show ?thesis by simp
qed

lemma run_unique:
  assumes "a \<le> b" "b \<le> length s"
    and inside: "\<And>k. a \<le> k \<Longrightarrow> k < b \<Longrightarrow> P (s ! k)"
    and stops: "b < length s \<Longrightarrow> \<not> P (s ! b)"
  shows "a + length (takeWhile P (drop a s)) = b"
proof -
  let ?xs = "drop a s"
  have "takeWhile P ?xs = take (b - a) ?xs"
  proof (rule takeWhile_eq_take_P_nth)
    fix i assume "i < b - a" "i < length ?xs"
    then have "P (s ! (a + i))" by (intro inside) simp_all
    then show "P (?xs ! i)" using assms(1,2) by simp
  next
    assume "b - a < length ?xs"
    then have "b < length s" using assms(1) by simp
    then have "\<not> P (s ! b)" by (rule stops)
    then show "\<not> P (?xs ! (b - a))" using assms(1,2) by simp
  qed
  then have "length (takeWhile P ?xs) = length (take (b - a) ?xs)" by simp
  also have "\<dots> = b - a" using assms(1,2) by simp
  finally show ?thesis using assms(1) by simp
qed

lemma take1_drop: "take 1 (drop n s) = (if n < length s then [s ! n] else [])"
proof (cases "n < length s")
  case True
  then have "drop n s = s ! n # drop (Suc n) s"
    by (simp add: Cons_nth_drop_Suc)
  with True show ?thesis by simp
next
  case False
  then show ?thesis by simp
qed

lemma first3_digits:
  "length (take 3 s) = 3 \<and> list_all isDigit (take 3 s)
   \<longleftrightarrow> 3 \<le> length s \<and> (\<forall>k < 3. isDigit (s ! k))"
  by (auto simp: list_all_length)

text \<open>The source's test in terms of the three positions where its runs end.\<close>

lemma startsWithSmtpCode_positions:
  "startsWithSmtpCode s \<longleftrightarrow>
     (let p = 3 + length (takeWhile isWhiteSpace (drop 3 s));
          q = p + length (takeWhile isDigit (drop p s));
          r = Suc q + length (takeWhile isDigit (drop (Suc q) s))
      in 3 \<le> length s \<and> (\<forall>k < 3. isDigit (s ! k))
         \<and> 3 < p \<and> p < q
         \<and> q < length s \<and> s ! q = of_char CHR ''.''
         \<and> Suc q < r
         \<and> r < length s \<and> s ! r = of_char CHR ''.''
         \<and> Suc r < length s \<and> isDigit (s ! Suc r))"
proof -
  define p where "p = 3 + length (takeWhile isWhiteSpace (drop 3 s))"
  define q where "q = p + length (takeWhile isDigit (drop p s))"
  define r where "r = Suc q + length (takeWhile isDigit (drop (Suc q) s))"
  have r2: "dropWhile isWhiteSpace (drop 3 s) = drop p s"
    unfolding p_def by (rule run_drop)
  have r3: "dropWhile isDigit (drop p s) = drop q s"
    unfolding q_def by (rule run_drop)
  have d1: "drop 1 (drop q s) = drop (Suc q) s"
    by simp
  have r4: "dropWhile isDigit (drop (Suc q) s) = drop r s"
    unfolding r_def by (rule run_drop)
  have r5: "drop 1 (drop r s) = drop (Suc r) s"
    by simp
  have b: "takeWhile isWhiteSpace (drop 3 s) \<noteq> [] \<longleftrightarrow> 3 < p"
    unfolding p_def by simp
  have c: "takeWhile isDigit (drop p s) \<noteq> [] \<longleftrightarrow> p < q"
    unfolding q_def by simp
  have f: "takeWhile isDigit (drop (Suc q) s) \<noteq> [] \<longleftrightarrow> Suc q < r"
    unfolding r_def by simp
  have e: "take 1 (drop q s) = js ''.'' \<longleftrightarrow> q < length s \<and> s ! q = of_char CHR ''.''"
    unfolding take1_drop by (simp add: js_def)
  have g: "take 1 (drop r s) = js ''.'' \<longleftrightarrow> r < length s \<and> s ! r = of_char CHR ''.''"
    unfolding take1_drop by (simp add: js_def)
  have h: "take 1 (drop (Suc r) s) \<noteq> [] \<and> list_all isDigit (take 1 (drop (Suc r) s))
      \<longleftrightarrow> Suc r < length s \<and> isDigit (s ! Suc r)"
    unfolding take1_drop by simp
  have "startsWithSmtpCode s \<longleftrightarrow>
      3 \<le> length s \<and> (\<forall>k < 3. isDigit (s ! k))
         \<and> 3 < p \<and> p < q
         \<and> q < length s \<and> s ! q = of_char CHR ''.''
         \<and> Suc q < r
         \<and> r < length s \<and> s ! r = of_char CHR ''.''
         \<and> Suc r < length s \<and> isDigit (s ! Suc r)"
    unfolding startsWithSmtpCode_def Let_def r2 r3 d1 r4 r5 b c f e g
    using first3_digits[of s] h by blast
  then show ?thesis
    unfolding Let_def p_def q_def r_def .
qed

lemma runOf_iff:
  "runOf P s a b \<longleftrightarrow> a < b \<and> b \<le> length s \<and> (\<forall>k. a \<le> k \<and> k < b \<longrightarrow> P (s ! k))"
  by (auto simp: runOf_def)

lemma startsWithSmtpCode_described: "startsWithSmtpCode s \<longleftrightarrow> beginsWithSmtpStatus s"
proof -
  have dd: "decimalDigit = isDigit" and ww: "whiteSpaceCodePoint = isWhiteSpace"
    by (intro ext, rule decimalDigit_eq, intro ext, rule whiteSpaceCodePoint_eq)
  define p where "p = 3 + length (takeWhile isWhiteSpace (drop 3 s))"
  define q where "q = p + length (takeWhile isDigit (drop p s))"
  define r where "r = Suc q + length (takeWhile isDigit (drop (Suc q) s))"
  have code: "startsWithSmtpCode s \<longleftrightarrow>
      3 \<le> length s \<and> (\<forall>k < 3. isDigit (s ! k))
         \<and> 3 < p \<and> p < q
         \<and> q < length s \<and> s ! q = of_char CHR ''.''
         \<and> Suc q < r
         \<and> r < length s \<and> s ! r = of_char CHR ''.''
         \<and> Suc r < length s \<and> isDigit (s ! Suc r)"
    unfolding startsWithSmtpCode_positions Let_def p_def q_def r_def ..
  show ?thesis
  proof
    assume "startsWithSmtpCode s"
    then have len: "3 \<le> length s" and three: "\<forall>k < 3. isDigit (s ! k)"
      and pq: "3 < p" "p < q" and qd: "q < length s" "s ! q = of_char CHR ''.''"
      and qr: "Suc q < r" and rd: "r < length s" "s ! r = of_char CHR ''.''"
      and last: "Suc r < length s" "isDigit (s ! Suc r)"
      unfolding code by simp_all
    have p_in: "p \<le> length s"
      unfolding p_def using len by (rule run_inside)
    have run0: "runOf isDigit s 0 3"
      unfolding runOf_iff using len three by simp
    have run1: "runOf isWhiteSpace s 3 p"
      unfolding runOf_iff using pq(1) p_in run_members[OF len, of _ isWhiteSpace]
      by (simp add: p_def)
    have run2: "runOf isDigit s p q"
      unfolding runOf_iff using pq(2) qd(1) run_members[OF p_in, of _ isDigit]
      by (simp add: q_def)
    have sq_in: "Suc q \<le> length s" using qd(1) by simp
    have run3: "runOf isDigit s (Suc q) r"
      unfolding runOf_iff using qr rd(1) run_members[OF sq_in, of _ isDigit]
      by (simp add: r_def)
    have run4: "runOf isDigit s (Suc r) (Suc (Suc r))"
      unfolding runOf_iff using last by (auto simp: le_less_Suc_eq)
    have "p \<in> {..length s}" "q \<in> {..<length s}" "r \<in> {..<length s}"
      "Suc (Suc r) \<in> {..length s}"
      using p_in qd(1) rd(1) last(1) by simp_all
    with run0 run1 run2 qd(2) run3 rd(2) run4 show "beginsWithSmtpStatus s"
      unfolding beginsWithSmtpStatus_def dd ww by blast
  next
    assume "beginsWithSmtpStatus s"
    then obtain p' q' r' e' where
      run0: "runOf isDigit s 0 3" and run1: "runOf isWhiteSpace s 3 p'"
      and run2: "runOf isDigit s p' q'" and qd: "q' < length s" "s ! q' = of_char CHR ''.''"
      and run3: "runOf isDigit s (Suc q') r'" and rd: "r' < length s" "s ! r' = of_char CHR ''.''"
      and run4: "runOf isDigit s (Suc r') e'"
      unfolding beginsWithSmtpStatus_def dd ww by auto
    from run0 have len: "3 \<le> length s" and three: "\<forall>k < 3. isDigit (s ! k)"
      by (simp_all add: runOf_iff)
    have "isDigit (s ! p')"
      using run2 by (simp add: runOf_iff)
    then have stop1: "\<not> isWhiteSpace (s ! p')"
      by (rule digit_not_white)
    have p: "p = p'"
      unfolding p_def using run1 stop1 by (intro run_unique) (simp_all add: runOf_iff)
    have stop2: "\<not> isDigit (s ! q')"
      unfolding qd(2) by (rule dot_not_digit)
    have q: "q = q'"
      unfolding q_def p using run2 stop2 by (intro run_unique) (simp_all add: runOf_iff)
    have stop3: "\<not> isDigit (s ! r')"
      unfolding rd(2) by (rule dot_not_digit)
    have r: "r = r'"
      unfolding r_def q using run3 stop3 by (intro run_unique) (simp_all add: runOf_iff)
    from run4 have last: "Suc r' < length s" "isDigit (s ! Suc r')"
      by (simp_all add: runOf_iff)
    from run1 run2 run3 have order: "3 < p'" "p' < q'" "Suc q' < r'"
      by (simp_all add: runOf_iff)
    show "startsWithSmtpCode s"
      unfolding code p q r using len three order qd rd last by simp
  qed
qed

lemma patternLoop_iff:
  "patternLoop ps cleaned =
     (if \<exists>p \<in> set ps. matchPattern p cleaned
      then Some \<lparr> summary = js ''The recipient's email address was not found or is invalid.'',
                  technical = Some cleaned \<rparr>
      else None)"
  by (induction ps) simp_all

lemma split_not_Nil: "split sep s \<noteq> []"
  by (induction s) (simp_all split: list.split)

lemma first_split: "first (split sep s) = Some (takeWhile (\<lambda>c. \<not> sep c) s)"
proof (induction s)
  case Nil
  show ?case by (simp add: first_def)
next
  case (Cons c s)
  obtain piece pieces where p: "split sep s = piece # pieces"
    using split_not_Nil[of sep s] by (cases "split sep s") auto
  with Cons.IH have "piece = takeWhile (\<lambda>c. \<not> sep c) s"
    by (simp add: first_def)
  with p show ?case
    by (simp add: first_def)
qed

lemma sentence_end_described:
  "(\<lambda>c. \<not> isSentenceEnd c) =
     (\<lambda>c. c \<notin> {of_char CHR ''.'', of_char CHR ''!'', of_char CHR ''?''})"
  by (intro ext) (simp add: isSentenceEnd_def)

lemma first_sentence_described:
  "first (split isSentenceEnd s) =
     Some (takeWhile (\<lambda>c. c \<notin> {of_char CHR ''.'', of_char CHR ''!'', of_char CHR ''?''}) s)"
  unfolding first_split sentence_end_described ..

lemma patterns_cleaned:
  "(\<exists>p \<in> set patterns. matchPattern p (describedCleanedText r))
     \<longleftrightarrow> knownFailure (describedCleanedText r)"
  by (rule patterns_described) (simp add: cleaned_no_lineTerminator)

lemma startsWithCI_Nil: "startsWithCI pat [] \<longleftrightarrow> pat = []"
  by (auto simp: startsWithCI_def)

lemma described_empty:
  "describedCleanBounceReason (Some []) = \<lparr> summary = [], technical = None \<rparr>"
proof -
  have c: "describedCleanedText [] = []"
    by (simp add: describedCleanedText_def)
  have "\<not> (\<exists>p \<in> set patterns. matchPattern p [])"
    by (simp add: patterns_def startsWithCI_Nil)
  then have k: "knownFailure [] = False"
    using patterns_described[of "[]"] by simp
  have "\<not> startsWithSmtpCode []"
    by (simp add: startsWithSmtpCode_def)
  then have s: "beginsWithSmtpStatus [] = False"
    by (simp add: startsWithSmtpCode_described)
  have "\<not> containsCI (js ''error code'') []"
    by (simp add: startsWithCI_Nil)
  then have e: "containsIgnoringCase (js ''error code'') [] = False"
    by (simp add: containsCI_described)
  show ?thesis
    by (simp only: describedCleanBounceReason_def c k s e Let_def option.case takeWhile.simps
        if_False simp_thms)
qed

text \<open>
  Claim C1. \<open>cleanBounceReason\<close> is the described function of its input: for
  \<open>null\<close> the empty summary without technical text; otherwise, on the text with
  tags stripped and white space collapsed, (1) the fixed "not found or is invalid"
  summary with the cleaned text as technical when one of the nine patterns matches;
  (2) otherwise the "server rejected" summary with the cleaned text as technical when
  the text starts with a three-digit code and a dotted status code or contains
  "error code"; (3) otherwise, when the text before the first \<open>.\<close>, \<open>!\<close> or \<open>?\<close>
  is non-empty and its length is above 10 and below 200, that sentence with a dot
  appended as summary and the cleaned text as technical unless both coincide; (4)
  otherwise the cleaned text as summary without technical text. The described function
  states each of these notions on its own: tags and white space by \<open>dropTags\<close> and
  \<open>squeeze\<close>, the patterns by positions at which a phrase occurs, the status code
  by the positions of its runs of digits.
\<close>

theorem cleanBounceReason_described:
  "cleanBounceReason reason = describedCleanBounceReason reason"
proof (cases reason)
  case None
  then show ?thesis
    by (simp add: cleanBounceReason_def describedCleanBounceReason_def)
next
  case (Some r)
  show ?thesis
  proof (cases "r = []")
    case True
    with Some show ?thesis
      by (simp add: cleanBounceReason_def described_empty)
  next
    case False
    with Some show ?thesis
      by (simp add: cleanBounceReason_def describedCleanBounceReason_def Let_def
          cleanText_described patternLoop_iff patterns_cleaned startsWithSmtpCode_described
          containsCI_described first_sentence_described)
  qed
qed

theorem cleanBounceReason_described_witness:
  "describedCleanBounceReason None = \<lparr> summary = [], technical = None \<rparr>
   \<and> describedCleanBounceReason (Some (js ''<b>User</b>   unknown'')) =
     \<lparr> summary = js ''The recipient's email address was not found or is invalid.'',
       technical = Some (js ''User unknown'') \<rparr>
   \<and> describedCleanBounceReason (Some (js ''Delivery has failed'')) =
     \<lparr> summary = js ''The recipient's email address was not found or is invalid.'',
       technical = Some (js ''Delivery has failed'') \<rparr>
   \<and> describedCleanBounceReason (Some (js ''550 5.1.1 blocked'')) =
     \<lparr> summary = js ''The email server rejected the message.'',
       technical = Some (js ''550 5.1.1 blocked'') \<rparr>
   \<and> describedCleanBounceReason (Some (js ''Error Code 17'')) =
     \<lparr> summary = js ''The email server rejected the message.'',
       technical = Some (js ''Error Code 17'') \<rparr>
   \<and> describedCleanBounceReason (Some (js ''Mailbox is full. Bye'')) =
     \<lparr> summary = js ''Mailbox is full.'', technical = Some (js ''Mailbox is full. Bye'') \<rparr>
   \<and> describedCleanBounceReason (Some (js ''Short. x'')) =
     \<lparr> summary = js ''Short. x'', technical = None \<rparr>"
proof -
  note clean = cleanText_def trim_def isWhiteSpace_def js_def
  note match = patterns_def startsWithCI_def canonicalize_def isLineTerminator_def js_def
  note code = startsWithSmtpCode_def isDigit_def isWhiteSpace_def js_def
  have n: "cleanBounceReason None = \<lparr> summary = [], technical = None \<rparr>"
    by (simp add: cleanBounceReason_def)

  have c1: "cleanText (js ''<b>User</b>   unknown'') = js ''User unknown''"
    by (simp add: clean)
  have m1: "\<exists>p \<in> set patterns. matchPattern p (js ''User unknown'')"
    by (simp add: match)
  have a1: "cleanBounceReason (Some (js ''<b>User</b>   unknown'')) =
     \<lparr> summary = js ''The recipient's email address was not found or is invalid.'',
       technical = Some (js ''User unknown'') \<rparr>"
    using m1 by (simp add: cleanBounceReason_def c1 patternLoop_iff)

  have c2: "cleanText (js ''Delivery has failed'') = js ''Delivery has failed''"
    by (simp add: clean)
  have m2: "\<exists>p \<in> set patterns. matchPattern p (js ''Delivery has failed'')"
    by (simp add: match)
  have a2: "cleanBounceReason (Some (js ''Delivery has failed'')) =
     \<lparr> summary = js ''The recipient's email address was not found or is invalid.'',
       technical = Some (js ''Delivery has failed'') \<rparr>"
    using m2 by (simp add: cleanBounceReason_def c2 patternLoop_iff)

  have c3: "cleanText (js ''550 5.1.1 blocked'') = js ''550 5.1.1 blocked''"
    by (simp add: clean)
  have m3: "\<not> (\<exists>p \<in> set patterns. matchPattern p (js ''550 5.1.1 blocked''))"
    by (simp add: match)
  have s3: "startsWithSmtpCode (js ''550 5.1.1 blocked'')"
    by (simp add: code)
  have a3: "cleanBounceReason (Some (js ''550 5.1.1 blocked'')) =
     \<lparr> summary = js ''The email server rejected the message.'',
       technical = Some (js ''550 5.1.1 blocked'') \<rparr>"
    using m3 by (simp add: cleanBounceReason_def c3 patternLoop_iff s3)

  have c4: "cleanText (js ''Error Code 17'') = js ''Error Code 17''"
    by (simp add: clean)
  have m4: "\<not> (\<exists>p \<in> set patterns. matchPattern p (js ''Error Code 17''))"
    by (simp add: match)
  have e4: "containsCI (js ''error code'') (js ''Error Code 17'')"
    by (simp add: match)
  have a4: "cleanBounceReason (Some (js ''Error Code 17'')) =
     \<lparr> summary = js ''The email server rejected the message.'',
       technical = Some (js ''Error Code 17'') \<rparr>"
    using m4 by (simp add: cleanBounceReason_def c4 patternLoop_iff e4)

  have c5: "cleanText (js ''Mailbox is full. Bye'') = js ''Mailbox is full. Bye''"
    by (simp add: clean)
  have m5: "\<not> (\<exists>p \<in> set patterns. matchPattern p (js ''Mailbox is full. Bye''))"
    by (simp add: match)
  have s5: "\<not> startsWithSmtpCode (js ''Mailbox is full. Bye'')"
    by (simp add: code)
  have e5: "\<not> containsCI (js ''error code'') (js ''Mailbox is full. Bye'')"
    by (simp add: match)
  have f5: "takeWhile (\<lambda>c. \<not> isSentenceEnd c) (js ''Mailbox is full. Bye'') = js ''Mailbox is full''"
    by (simp add: isSentenceEnd_def js_def)
  have j5: "js ''Mailbox is full'' @ js ''.'' = js ''Mailbox is full.''"
    by (simp add: js_def)
  have a5: "cleanBounceReason (Some (js ''Mailbox is full. Bye'')) =
     \<lparr> summary = js ''Mailbox is full.'', technical = Some (js ''Mailbox is full. Bye'') \<rparr>"
    using m5 by (simp add: cleanBounceReason_def c5 patternLoop_iff s5 e5 first_split f5 j5)

  have c6: "cleanText (js ''Short. x'') = js ''Short. x''"
    by (simp add: clean)
  have m6: "\<not> (\<exists>p \<in> set patterns. matchPattern p (js ''Short. x''))"
    by (simp add: match)
  have s6: "\<not> startsWithSmtpCode (js ''Short. x'')"
    by (simp add: code)
  have e6: "\<not> containsCI (js ''error code'') (js ''Short. x'')"
    by (simp add: match)
  have f6: "takeWhile (\<lambda>c. \<not> isSentenceEnd c) (js ''Short. x'') = js ''Short''"
    by (simp add: isSentenceEnd_def js_def)
  have a6: "cleanBounceReason (Some (js ''Short. x'')) =
     \<lparr> summary = js ''Short. x'', technical = None \<rparr>"
    using m6 by (simp add: cleanBounceReason_def c6 patternLoop_iff s6 e6 first_split f6)

  show ?thesis
    unfolding cleanBounceReason_described[symmetric]
    by (intro conjI) (rule n a1 a2 a3 a4 a5 a6)+
qed

end
